theory Spec2Isabelle
  imports Main "HOL-Library.Word" "HOL-Library.Signed_Division"
begin

section \<open>Data model of the cache (cache.h, cache.c)\<close>

text \<open>
  The cache is a C program working on heap objects through pointers. A pointer is an
  address or NULL (\<open>addr option\<close>); the heap maps the addresses of live objects to
  their contents, and \<open>free\<close> removes an address from it. Everything the C standard
  leaves undefined (a NULL or dangling dereference, an index outside an array, a
  division by zero, a signed overflow) is a \<open>fault\<close> of the model.

  The per-node read/write locks are not modelled: every operation runs alone, from
  its call to its return.
\<close>

type_synonym byte = "8 word"
type_synonym addr = nat

datatype fault = NullDeref | UseAfterFree | OutOfBounds | DivByZero | IntOverflow

text \<open>
  What \<open>malloc\<close> and \<open>calloc\<close> return: the new object, or NULL with \<open>errno\<close> set
  to \<open>ENOMEM\<close>, or NULL with another \<open>errno\<close>.
\<close>

datatype 'a alloc = Allocated 'a | NoMemory | Failed

record timeval =
  tv_sec :: int
  tv_usec :: int

text \<open>
  \<open>struct cache_entry_t\<close>: the request buffer, its length and the \<open>deleted\<close> flag.
  The response, the mutex and the condition are never read by cache.c.
\<close>

record cache_entry_t =
  request :: "byte list"
  request_len :: nat
  deleted :: bool

record cache_node_t =
  entry :: addr
  last_modified_time :: timeval
  next_node :: "addr option"

record cache_t =
  capacity :: int
  array :: "addr option list"
  garbage_collector_running :: bool
  entry_expired_time_ms :: int

text \<open>
  The heap: the live nodes, the live entries, and the messages handed to \<open>log\<close>
  so far, oldest first.
\<close>

record heap =
  nodes :: "addr \<rightharpoonup> cache_node_t"
  entries :: "addr \<rightharpoonup> cache_entry_t"
  logged :: "string list"

definition SUCCESS :: int where "SUCCESS = 0"
definition ERROR :: int where "ERROR = - 1"
definition NOT_FOUND :: int where "NOT_FOUND = - 2"

definition INT_MAX :: int where "INT_MAX = 2147483647"
definition INT_MIN :: int where "INT_MIN = - 2147483648"

definition log_msg :: "string \<Rightarrow> heap \<Rightarrow> heap" where
  "log_msg text h = h\<lparr>logged := logged h @ [text]\<rparr>"

text \<open>\<open>strerror(ENOMEM)\<close>, as the C library words it.\<close>

definition strerror_ENOMEM :: string where
  "strerror_ENOMEM = ''Cannot allocate memory''"

section \<open>The hash function\<close>

text \<open>
  \<open>static int hash(const char *request, size_t request_len, int size)\<close>.
  \<open>char\<close> is signed on the platform the code is written for (the one-argument
  \<open>pthread_setname_np\<close> is Darwin's), so \<open>request[i]\<close> is read with \<open>sint\<close>; the
  arithmetic is that of \<open>int\<close>, and C's \<open>%\<close> truncates towards zero (\<open>smod\<close>).
\<close>

function hash_loop :: "byte list \<Rightarrow> nat \<Rightarrow> int \<Rightarrow> nat \<Rightarrow> int \<Rightarrow> fault + int" where
  "hash_loop req len sz i hash_value =
     (if i < len then
        (if length req \<le> i then Inl OutOfBounds
         else if hash_value * 31 < INT_MIN \<or> INT_MAX < hash_value * 31 then Inl IntOverflow
         else let v = hash_value * 31 + sint (req ! i) in
           if v < INT_MIN \<or> INT_MAX < v then Inl IntOverflow
           else if sz = 0 then Inl DivByZero
           else hash_loop req len sz (Suc i) (v smod sz))
      else Inr hash_value)"
  by pat_completeness auto
termination
  by (relation "measure (\<lambda>(req, len, sz, i, hash_value). len - i)") auto

declare hash_loop.simps [simp del]

definition hash :: "byte list option \<Rightarrow> nat \<Rightarrow> int \<Rightarrow> fault + int" where
  "hash req len sz =
     (case req of
        None \<Rightarrow> Inr 0
      | Some r \<Rightarrow> hash_loop r len sz 0 0)"

text \<open>
  The reference fold of the specification, over the byte values \<open>0..255\<close>:
  \<open>h = 0; for i in 0..n: h = (h * 31 + byte_i) mod capacity\<close>.
\<close>

definition hash_spec :: "byte list \<Rightarrow> int \<Rightarrow> int" where
  "hash_spec bytes cap = fold (\<lambda>b h. (h * 31 + uint b) mod cap) bytes 0"

text \<open>
  libc's \<open>strncmp\<close>: at most \<open>n\<close> characters are compared, as unsigned chars, and
  the comparison stops after a NUL. Reading past the end of a buffer is a fault.
\<close>

fun strncmp :: "byte list \<Rightarrow> byte list \<Rightarrow> nat \<Rightarrow> fault + int" where
  "strncmp s1 s2 0 = Inr 0"
| "strncmp [] s2 (Suc n) = Inl OutOfBounds"
| "strncmp (c1 # s1) [] (Suc n) = Inl OutOfBounds"
| "strncmp (c1 # s1) (c2 # s2) (Suc n) =
     (if c1 \<noteq> c2 then Inr (uint c1 - uint c2)
      else if c1 = 0 then Inr 0
      else strncmp s1 s2 n)"

section \<open>Cache operations\<close>

text \<open>
  \<open>cache_create\<close>: \<open>m\<close> is the outcome of the \<open>malloc\<close> of the cache and \<open>ca\<close>
  that of the \<open>calloc\<close> of its array; on success every bucket is NULL and the
  collector is running.
\<close>

definition cache_create ::
  "unit alloc \<Rightarrow> unit alloc \<Rightarrow> int \<Rightarrow> int \<Rightarrow> heap \<Rightarrow> cache_t option \<times> heap" where
  "cache_create m ca cap expired h =
     (case m of
        NoMemory \<Rightarrow> (None, log_msg (''Cache creation error: '' @ strerror_ENOMEM) h)
      | Failed \<Rightarrow> (None, log_msg ''Cache creation error: failed to reallocate memory'' h)
      | Allocated u \<Rightarrow>
          (case ca of
             NoMemory \<Rightarrow> (None, log_msg (''Cache creation error: '' @ strerror_ENOMEM) h)
           | Failed \<Rightarrow> (None, log_msg ''Cache creation error: failed to reallocate memory'' h)
           | Allocated v \<Rightarrow>
               (Some \<lparr>capacity = cap, array = replicate (nat cap) None,
                  garbage_collector_running = True, entry_expired_time_ms = expired\<rparr>, h)))"

text \<open>\<open>cache->array[index]\<close>, read and written.\<close>

definition array_read :: "cache_t \<Rightarrow> int \<Rightarrow> fault + addr option" where
  "array_read c index =
     (if 0 \<le> index \<and> index < int (length (array c)) then Inr (array c ! nat index)
      else Inl OutOfBounds)"

definition array_write :: "cache_t \<Rightarrow> int \<Rightarrow> addr option \<Rightarrow> fault + cache_t" where
  "array_write c index p =
     (if 0 \<le> index \<and> index < int (length (array c))
      then Inr (c\<lparr>array := (array c)[nat index := p]\<rparr>)
      else Inl OutOfBounds)"

text \<open>
  The test of lines 78 and 131:
  \<open>curr->entry->request_len == request_len && strncmp(curr->entry->request, request, request_len) == 0\<close>.
  \<open>strncmp\<close> is only called when the lengths agree.
\<close>

definition request_matches :: "cache_entry_t \<Rightarrow> byte list option \<Rightarrow> nat \<Rightarrow> fault + bool" where
  "request_matches e req len =
     (if request_len e = len then
        (case req of
           None \<Rightarrow> Inl NullDeref
         | Some r \<Rightarrow>
             (case strncmp (request e) r len of
                Inl f \<Rightarrow> Inl f
              | Inr v \<Rightarrow> Inr (v = 0)))
      else Inr False)"

text \<open>
  The loop of \<open>cache_get\<close>. \<open>now\<close> is what \<open>gettimeofday\<close> returns when the
  loop calls it. The result is \<open>None\<close> when the loop never ends (a cyclic chain).
\<close>

partial_function (option) get_loop ::
  "addr option \<Rightarrow> byte list option \<Rightarrow> nat \<Rightarrow> timeval \<Rightarrow> heap \<Rightarrow> (fault + addr option \<times> heap) option" where
  "get_loop cur req len now h =
     (case cur of
        None \<Rightarrow> Some (Inr (None, h))
      | Some a \<Rightarrow>
          (case nodes h a of
             None \<Rightarrow> Some (Inl UseAfterFree)
           | Some nd \<Rightarrow>
               (case entries h (entry nd) of
                  None \<Rightarrow> Some (Inl UseAfterFree)
                | Some e \<Rightarrow>
                    (case request_matches e req len of
                       Inl f \<Rightarrow> Some (Inl f)
                     | Inr m \<Rightarrow>
                         if m then
                           Some (Inr (Some (entry nd),
                             h\<lparr>nodes := (nodes h)(a \<mapsto> nd\<lparr>last_modified_time := now\<rparr>)\<rparr>))
                         else get_loop (next_node nd) req len now h))))"

declare get_loop.simps [code]

definition cache_get ::
  "cache_t option \<Rightarrow> byte list option \<Rightarrow> nat \<Rightarrow> timeval \<Rightarrow> heap \<Rightarrow> (fault + addr option \<times> heap) option" where
  "cache_get cache req len now h =
     (case cache of
        None \<Rightarrow> Some (Inr (None, log_msg ''Cache getting error: cache is NULL'' h))
      | Some c \<Rightarrow>
          (case hash req len (capacity c) of
             Inl f \<Rightarrow> Some (Inl f)
           | Inr index \<Rightarrow>
               (case array_read c index of
                  Inl f \<Rightarrow> Some (Inl f)
                | Inr cur \<Rightarrow> get_loop cur req len now h)))"

text \<open>
  \<open>cache_node_create\<close>: \<open>al\<close> is the outcome of \<open>malloc\<close> and \<open>now\<close> what
  \<open>gettimeofday\<close> returns.
\<close>

definition cache_node_create :: "addr \<Rightarrow> addr alloc \<Rightarrow> timeval \<Rightarrow> heap \<Rightarrow> addr option \<times> heap" where
  "cache_node_create e al now h =
     (case al of
        NoMemory \<Rightarrow> (None, log_msg (''Cache node creation error: '' @ strerror_ENOMEM) h)
      | Failed \<Rightarrow> (None, log_msg ''Cache node creation error: failed to reallocate memory'' h)
      | Allocated a \<Rightarrow>
          (Some a, h\<lparr>nodes := (nodes h)(a \<mapsto>
             \<lparr>entry = e, last_modified_time = now, next_node = None\<rparr>)\<rparr>))"

definition cache_add ::
  "cache_t option \<Rightarrow> addr option \<Rightarrow> addr alloc \<Rightarrow> timeval \<Rightarrow> heap
     \<Rightarrow> fault + int \<times> cache_t option \<times> heap" where
  "cache_add cache ent al now h =
     (case cache of
        None \<Rightarrow> Inr (ERROR, None, log_msg ''Cache adding error: cache is NULL'' h)
      | Some c \<Rightarrow>
          (case ent of
             None \<Rightarrow> Inr (ERROR, Some c, log_msg ''Cache adding error: cache entry is NULL'' h)
           | Some e \<Rightarrow>
               (case cache_node_create e al now h of
                  (None, h1) \<Rightarrow> Inr (ERROR, Some c, h1)
                | (Some node, h1) \<Rightarrow>
                    (case entries h1 e of
                       None \<Rightarrow> Inl UseAfterFree
                     | Some en \<Rightarrow>
                         (case hash (Some (request en)) (request_len en) (capacity c) of
                            Inl f \<Rightarrow> Inl f
                          | Inr index \<Rightarrow>
                              (case array_read c index of
                                 Inl f \<Rightarrow> Inl f
                               | Inr old_head \<Rightarrow>
                                   (case nodes h1 node of
                                      None \<Rightarrow> Inl UseAfterFree
                                    | Some nd \<Rightarrow>
                                        (case array_write c index (Some node) of
                                           Inl f \<Rightarrow> Inl f
                                         | Inr c' \<Rightarrow>
                                             Inr (SUCCESS, Some c',
                                               log_msg ''Add new cache entry''
                                                 (h1\<lparr>nodes := (nodes h1)(node \<mapsto>
                                                    nd\<lparr>next_node := old_head\<rparr>)\<rparr>))))))))))"

text \<open>
  Modelled from the spec: \<open>cache_entry_destroy\<close> (declared in cache.h, defined
  outside the sources at hand). "destroy(entry): reclaims the response buffer and
  coordinator": the entry leaves the heap.
\<close>

definition cache_entry_destroy :: "addr \<Rightarrow> heap \<Rightarrow> fault + heap" where
  "cache_entry_destroy e h =
     (case entries h e of
        None \<Rightarrow> Inl UseAfterFree
      | Some en \<Rightarrow> Inr (h\<lparr>entries := (entries h)(e := None)\<rparr>))"

definition cache_node_destroy :: "addr option \<Rightarrow> heap \<Rightarrow> fault + heap" where
  "cache_node_destroy node h =
     (case node of
        None \<Rightarrow> Inr (log_msg ''Cache node destroying error: node is NULL'' h)
      | Some a \<Rightarrow>
          (case nodes h a of
             None \<Rightarrow> Inl UseAfterFree
           | Some nd \<Rightarrow>
               (case cache_entry_destroy (entry nd) h of
                  Inl f \<Rightarrow> Inl f
                | Inr h1 \<Rightarrow> Inr (h1\<lparr>nodes := (nodes h1)(a := None)\<rparr>))))"

text \<open>
  The loop of \<open>cache_delete\<close>. On a match with no predecessor the bucket slot is
  written only when the node has no successor (line 134); with a predecessor, the
  predecessor's link skips the node (line 137).
\<close>

partial_function (option) delete_loop ::
  "addr option \<Rightarrow> addr option \<Rightarrow> int \<Rightarrow> cache_t \<Rightarrow> byte list option \<Rightarrow> nat \<Rightarrow> heap
     \<Rightarrow> (fault + int \<times> cache_t \<times> heap) option" where
  "delete_loop cur prev index c req len h =
     (case cur of
        None \<Rightarrow> Some (Inr (NOT_FOUND, c, h))
      | Some a \<Rightarrow>
          (case nodes h a of
             None \<Rightarrow> Some (Inl UseAfterFree)
           | Some nd \<Rightarrow>
               (case entries h (entry nd) of
                  None \<Rightarrow> Some (Inl UseAfterFree)
                | Some e \<Rightarrow>
                    (case request_matches e req len of
                       Inl f \<Rightarrow> Some (Inl f)
                     | Inr m \<Rightarrow>
                         if m then
                           (case
                              (case prev of
                                 None \<Rightarrow>
                                   (case next_node nd of
                                      None \<Rightarrow>
                                        (case array_write c index None of
                                           Inl f \<Rightarrow> Inl f
                                         | Inr c' \<Rightarrow> Inr (c', h))
                                    | Some n \<Rightarrow> Inr (c, h))
                               | Some p \<Rightarrow>
                                   (case nodes h p of
                                      None \<Rightarrow> Inl UseAfterFree
                                    | Some pn \<Rightarrow>
                                        Inr (c, h\<lparr>nodes := (nodes h)(p \<mapsto>
                                          pn\<lparr>next_node := next_node nd\<rparr>)\<rparr>)))
                            of
                              Inl f \<Rightarrow> Some (Inl f)
                            | Inr (c1, h1) \<Rightarrow>
                                (case cache_node_destroy (Some a) h1 of
                                   Inl f \<Rightarrow> Some (Inl f)
                                 | Inr h2 \<Rightarrow>
                                     Some (Inr (SUCCESS, c1, log_msg ''Cache entry destroy'' h2))))
                         else delete_loop (next_node nd) (Some a) index c req len h))))"

declare delete_loop.simps [code]

definition cache_delete ::
  "cache_t option \<Rightarrow> byte list option \<Rightarrow> nat \<Rightarrow> heap \<Rightarrow> (fault + int \<times> cache_t option \<times> heap) option" where
  "cache_delete cache req len h =
     (case cache of
        None \<Rightarrow> Some (Inr (ERROR, None, log_msg ''Cache deleting error: cache is NULL'' h))
      | Some c \<Rightarrow>
          (case hash req len (capacity c) of
             Inl f \<Rightarrow> Some (Inl f)
           | Inr index \<Rightarrow>
               (case array_read c index of
                  Inl f \<Rightarrow> Some (Inl f)
                | Inr cur \<Rightarrow>
                    if cur = None then Some (Inr (NOT_FOUND, Some c, h))
                    else
                      (case delete_loop cur None index c req len h of
                         None \<Rightarrow> None
                       | Some (Inl f) \<Rightarrow> Some (Inl f)
                       | Some (Inr (rc, c', h')) \<Rightarrow> Some (Inr (rc, Some c', h'))))))"

text \<open>
  \<open>cache_destroy\<close>: the wait for the collector thread is outside the model; the
  walk over the buckets destroys every node. \<open>%s\<close> prints the request up to its
  first NUL.
\<close>

definition c_string :: "byte list \<Rightarrow> string" where
  "c_string bs = map (\<lambda>b. char_of (uint b)) (takeWhile (\<lambda>b. b \<noteq> 0) bs)"

partial_function (option) destroy_chain :: "addr option \<Rightarrow> heap \<Rightarrow> (fault + heap) option" where
  "destroy_chain cur h =
     (case cur of
        None \<Rightarrow> Some (Inr h)
      | Some a \<Rightarrow>
          (case nodes h a of
             None \<Rightarrow> Some (Inl UseAfterFree)
           | Some nd \<Rightarrow>
               (case entries h (entry nd) of
                  None \<Rightarrow> Some (Inl UseAfterFree)
                | Some e \<Rightarrow>
                    (case cache_node_destroy (Some a)
                            (log_msg (''Delete entry: '' @ c_string (request e)) h) of
                       Inl f \<Rightarrow> Some (Inl f)
                     | Inr h1 \<Rightarrow> destroy_chain (next_node nd) h1))))"

declare destroy_chain.simps [code]

partial_function (option) destroy_for :: "nat \<Rightarrow> cache_t \<Rightarrow> heap \<Rightarrow> (fault + heap) option" where
  "destroy_for i c h =
     (if int i < capacity c then
        (case array_read c (int i) of
           Inl f \<Rightarrow> Some (Inl f)
         | Inr cur \<Rightarrow>
             (case destroy_chain cur h of
                None \<Rightarrow> None
              | Some (Inl f) \<Rightarrow> Some (Inl f)
              | Some (Inr h1) \<Rightarrow> destroy_for (Suc i) c h1))
      else Some (Inr h))"

declare destroy_for.simps [code]

definition cache_destroy :: "cache_t option \<Rightarrow> heap \<Rightarrow> (fault + heap) option" where
  "cache_destroy cache h =
     (case cache of
        None \<Rightarrow> Some (Inr (log_msg ''Cache destroying error: cache is NULL'' h))
      | Some c \<Rightarrow> destroy_for 0 (c\<lparr>garbage_collector_running := False\<rparr>) h)"

section \<open>The expirer\<close>

text \<open>
  \<open>diff\<close> (lines 249-250): the age of a node in milliseconds, as the collector
  computes it; C's \<open>/\<close> truncates towards zero (\<open>sdiv\<close>).
\<close>

definition diff :: "timeval \<Rightarrow> timeval \<Rightarrow> int" where
  "diff curr_time lmt =
     (tv_sec curr_time - tv_sec lmt) * 1000 + (tv_usec curr_time - tv_usec lmt) sdiv 1000"

text \<open>
  The argument of \<open>usleep\<close>, in microseconds:
  \<open>MIN(1000 * cache->entry_expired_time_ms / 2, 1000000)\<close> with
  \<open>#define MIN(x, y) (x < y) ? x : y\<close>.
\<close>

definition usleep_arg :: "cache_t \<Rightarrow> int" where
  "usleep_arg c =
     (if (1000 * entry_expired_time_ms c) sdiv 2 < 1000000
      then (1000 * entry_expired_time_ms c) sdiv 2 else 1000000)"

text \<open>
  The inner \<open>while\<close> loop of the collector over one chain. An expired node is
  removed by \<open>cache_delete\<close> on its entry's request; its \<open>next\<close> link is read
  before the call.
\<close>

partial_function (option) gc_chain ::
  "addr option \<Rightarrow> timeval \<Rightarrow> cache_t \<Rightarrow> heap \<Rightarrow> (fault + cache_t \<times> heap) option" where
  "gc_chain cur curr_time c h =
     (case cur of
        None \<Rightarrow> Some (Inr (c, h))
      | Some a \<Rightarrow>
          (case nodes h a of
             None \<Rightarrow> Some (Inl UseAfterFree)
           | Some nd \<Rightarrow>
               if entry_expired_time_ms c \<le> diff curr_time (last_modified_time nd) then
                 (case entries h (entry nd) of
                    None \<Rightarrow> Some (Inl UseAfterFree)
                  | Some e \<Rightarrow>
                      (case cache_delete (Some c) (Some (request e)) (request_len e) h of
                         None \<Rightarrow> None
                       | Some (Inl f) \<Rightarrow> Some (Inl f)
                       | Some (Inr (rc, co, h1)) \<Rightarrow>
                           (case co of
                              None \<Rightarrow> Some (Inl NullDeref)
                            | Some c1 \<Rightarrow> gc_chain (next_node nd) curr_time c1 h1)))
               else gc_chain (next_node nd) curr_time c h))"

declare gc_chain.simps [code]

text \<open>The \<open>for\<close> loop over the buckets, from bucket \<open>i\<close> on.\<close>

partial_function (option) gc_for ::
  "nat \<Rightarrow> timeval \<Rightarrow> cache_t \<Rightarrow> heap \<Rightarrow> (fault + cache_t \<times> heap) option" where
  "gc_for i curr_time c h =
     (if int i < capacity c then
        (case array_read c (int i) of
           Inl f \<Rightarrow> Some (Inl f)
         | Inr cur \<Rightarrow>
             if cur = None then gc_for (Suc i) curr_time c h
             else
               (case gc_chain cur curr_time c h of
                  None \<Rightarrow> None
                | Some (Inl f) \<Rightarrow> Some (Inl f)
                | Some (Inr (c1, h1)) \<Rightarrow> gc_for (Suc i) curr_time c1 h1))
      else Some (Inr (c, h)))"

declare gc_for.simps [code]

text \<open>
  One round of \<open>garbage_collector_routine\<close> after its sleep: \<open>curr_time\<close> is the
  one reading of \<open>gettimeofday\<close> (line 239), used for every node of the round.
\<close>

definition garbage_collector_tick ::
  "timeval \<Rightarrow> cache_t \<Rightarrow> heap \<Rightarrow> (fault + cache_t \<times> heap) option" where
  "garbage_collector_tick curr_time c h = gc_for 0 curr_time c h"

section \<open>The worker pool (thread_pool.c)\<close>

text \<open>
  \<open>struct task_t\<close> and \<open>struct thread_pool_t\<close>. The routine and its argument are
  pointers the pool never looks into. The fields \<open>id\<close>, \<open>capacity\<close> and \<open>size\<close>
  are \<open>task_id\<close>, \<open>pool_capacity\<close> and \<open>pool_size\<close> here.
\<close>

record task_t =
  task_id :: int
  routine :: addr
  arg :: addr

record thread_pool_t =
  tasks :: "task_t list"
  pool_capacity :: int
  pool_size :: int
  front :: int
  rear :: int
  num_executors :: int
  shutdown :: bool

text \<open>
  The globals \<open>thread_pool_execute\<close> touches besides the pool: the static
  \<open>id_counter\<close> and the messages logged so far.
\<close>

record globals =
  id_counter :: int
  pool_logged :: "string list"

text \<open>
  Line 103: \<open>while (pool->size == pool->capacity && !pool->shutdown) pthread_cond_wait(...)\<close>.
  A wait gives the mutex up; when it returns, the pool is what the other threads
  made of it, the next element of \<open>wakeups\<close>. With no wake-up left the submitter
  stays blocked (\<open>None\<close>).
\<close>

fun wait_not_full :: "thread_pool_t \<Rightarrow> thread_pool_t list \<Rightarrow> thread_pool_t option" where
  "wait_not_full p [] =
     (if pool_size p = pool_capacity p \<and> \<not> shutdown p then None else Some p)"
| "wait_not_full p (q # wakeups) =
     (if pool_size p = pool_capacity p \<and> \<not> shutdown p then wait_not_full q wakeups
      else Some p)"

text \<open>
  \<open>thread_pool_execute\<close>: \<open>pool\<close> is the pointer (NULL, or the pool it points
  to). The result is the pool and the globals at the return, a fault, or \<open>None\<close>
  when the call never returns.
\<close>

definition thread_pool_execute ::
  "thread_pool_t option \<Rightarrow> addr \<Rightarrow> addr \<Rightarrow> thread_pool_t list \<Rightarrow> globals
     \<Rightarrow> (fault + thread_pool_t \<times> globals) option" where
  "thread_pool_execute pool rt ar wakeups g =
     (case pool of
        None \<Rightarrow> Some (Inl NullDeref)
      | Some p0 \<Rightarrow>
          if shutdown p0 then
            Some (Inr (p0, g\<lparr>pool_logged := pool_logged g @
              [''Thread pool execution error: thread pool was shutdown'']\<rparr>))
          else
            (case wait_not_full p0 wakeups of
               None \<Rightarrow> None
             | Some p \<Rightarrow>
                 if shutdown p then Some (Inr (p, g))
                 else if rear p < 0 \<or> int (length (tasks p)) \<le> rear p then Some (Inl OutOfBounds)
                 else if pool_capacity p = 0 then Some (Inl DivByZero)
                 else
                   Some (Inr (p\<lparr>
                       tasks := (tasks p)[nat (rear p) :=
                         \<lparr>task_id = id_counter g, routine = rt, arg = ar\<rparr>],
                       rear := (rear p + 1) smod pool_capacity p,
                       pool_size := pool_size p + 1\<rparr>,
                     g\<lparr>id_counter := id_counter g + 1\<rparr>))))"

section \<open>The log sink (log.c)\<close>

text \<open>
  \<open>struct tm\<close> as \<open>localtime\<close> fills it: \<open>tm_year\<close> counts from 1900 and
  \<open>tm_mon\<close> from 0.
\<close>

record tm =
  tm_year :: int
  tm_mon :: int
  tm_mday :: int
  tm_hour :: int
  tm_min :: int
  tm_sec :: int

definition MAX_LOG_MESSAGE_LENGTH :: nat where
  "MAX_LOG_MESSAGE_LENGTH = 1024"

text \<open>
  \<open>printf\<close>'s conversions: \<open>%0wd\<close> writes the decimal digits of an \<open>int\<close>, filled
  with zeros on the left up to the width \<open>w\<close> (the sign of a negative number comes
  first and counts); \<open>%15s\<close> fills a string with spaces on the left up to 15
  characters and never shortens it.
\<close>

fun digits :: "nat \<Rightarrow> string" where
  "digits n =
     (if n < 10 then [''0123456789'' ! n]
      else digits (n div 10) @ [''0123456789'' ! (n mod 10)])"

declare digits.simps [simp del]

definition printf_0d :: "nat \<Rightarrow> int \<Rightarrow> string" where
  "printf_0d w n =
     (if 0 \<le> n then replicate (w - length (digits (nat n))) (CHR ''0'') @ digits (nat n)
      else CHR ''-'' # replicate (w - 1 - length (digits (nat (- n)))) (CHR ''0'') @ digits (nat (- n)))"

definition printf_15s :: "string \<Rightarrow> string" where
  "printf_15s s = replicate (15 - length s) (CHR '' '') @ s"

text \<open>The loop of lines 26-28: LF and CR become a space, nothing else changes.\<close>

fun replace_newlines :: "string \<Rightarrow> string" where
  "replace_newlines [] = []"
| "replace_newlines (p # text) =
     (if p = CHR 0x0A \<or> p = CHR 0x0D then CHR '' '' else p) # replace_newlines text"

text \<open>
  \<open>log\<close>: \<open>tv\<close> is the reading of \<open>gettimeofday\<close>, \<open>t\<close> what \<open>localtime\<close>
  returns, \<open>rendered\<close> the expansion of the format and its arguments (\<open>vsnprintf\<close>
  keeps at most \<open>MAX_LOG_MESSAGE_LENGTH - 1\<close> characters of it), \<open>thread_name\<close>
  what \<open>pthread_getname_np\<close> returns. The result is what the call writes to the
  standard output.
\<close>

definition log :: "timeval \<Rightarrow> tm \<Rightarrow> string \<Rightarrow> string \<Rightarrow> string" where
  "log tv t rendered thread_name =
     (let text = replace_newlines (take (MAX_LOG_MESSAGE_LENGTH - 1) rendered) in
      printf_0d 4 (tm_year t + 1900) @ ''-'' @ printf_0d 2 (tm_mon t + 1) @ ''-'' @
      printf_0d 2 (tm_mday t) @ '' '' @ printf_0d 2 (tm_hour t) @ '':'' @
      printf_0d 2 (tm_min t) @ '':'' @ printf_0d 2 (tm_sec t) @ ''.'' @
      printf_0d 3 (tv_usec tv sdiv 1000) @ '' --- ['' @ printf_15s thread_name @ ''] : '' @
      text @ [CHR 0x0A])"

section \<open>Notions used to state the properties\<close>

text \<open>
  \<open>walks h cur bs a\<close>: following the \<open>next\<close> links from the pointer \<open>cur\<close>
  through the live nodes \<open>bs\<close>, in this order, one arrives at the node \<open>a\<close>.
\<close>

inductive walks :: "heap \<Rightarrow> addr option \<Rightarrow> addr list \<Rightarrow> addr \<Rightarrow> bool" where
  here: "walks h (Some a) [] a"
| step: "nodes h b = Some nd \<Longrightarrow> walks h (next_node nd) bs a \<Longrightarrow> walks h (Some b) (b # bs) a"

text \<open>The node \<open>b\<close> is live, so is its entry, and the request does not match it.\<close>

definition no_match :: "heap \<Rightarrow> byte list option \<Rightarrow> nat \<Rightarrow> addr \<Rightarrow> bool" where
  "no_match h req len b =
     (case nodes h b of
        None \<Rightarrow> False
      | Some nd \<Rightarrow>
          (case entries h (entry nd) of
             None \<Rightarrow> False
           | Some en \<Rightarrow> request_matches en req len = Inr False))"

text \<open>
  \<open>found cur req len now h e h'\<close>: the first node reachable from \<open>cur\<close> whose entry
  matches the request holds the entry \<open>e\<close>, and \<open>h'\<close> is \<open>h\<close> with the time stamp of
  that node set to \<open>now\<close>.
\<close>

definition found ::
  "addr option \<Rightarrow> byte list option \<Rightarrow> nat \<Rightarrow> timeval \<Rightarrow> heap \<Rightarrow> addr \<Rightarrow> heap \<Rightarrow> bool" where
  "found cur req len now h e h' \<longleftrightarrow>
     (\<exists>bs a nd en.
        walks h cur bs a \<and> list_all (no_match h req len) bs \<and>
        nodes h a = Some nd \<and> entry nd = e \<and>
        entries h e = Some en \<and> request_matches en req len = Inr True \<and>
        h' = h\<lparr>nodes := (nodes h)(a \<mapsto> nd\<lparr>last_modified_time := now\<rparr>)\<rparr>)"

text \<open>The time from \<open>t\<close> to \<open>curr_time\<close> in microseconds, computed exactly.\<close>

definition elapsed_us :: "timeval \<Rightarrow> timeval \<Rightarrow> int" where
  "elapsed_us curr_time t =
     (tv_sec curr_time - tv_sec t) * 1000000 + (tv_usec curr_time - tv_usec t)"

text \<open>
  The shape of a time stamp: in the pattern, the letters \<open>Y M D H S m\<close> stand for one
  decimal digit each, every other character for itself.
\<close>

definition is_digit :: "char \<Rightarrow> bool" where
  "is_digit c \<longleftrightarrow> c \<in> set ''0123456789''"

fun has_shape :: "string \<Rightarrow> string \<Rightarrow> bool" where
  "has_shape [] [] = True"
| "has_shape (p # ps) (c # cs) =
     ((if p \<in> set ''YMDHSm'' then is_digit c else c = p) \<and> has_shape ps cs)"
| "has_shape [] (c # cs) = False"
| "has_shape (p # ps) [] = False"

text \<open>\<open>localtime\<close> and \<open>gettimeofday\<close> return values in these ranges.\<close>

definition tm_in_range :: "tm \<Rightarrow> bool" where
  "tm_in_range t \<longleftrightarrow>
     0 \<le> tm_year t + 1900 \<and> tm_year t + 1900 \<le> 9999 \<and> 0 \<le> tm_mon t \<and> tm_mon t \<le> 11 \<and>
     1 \<le> tm_mday t \<and> tm_mday t \<le> 31 \<and> 0 \<le> tm_hour t \<and> tm_hour t \<le> 23 \<and>
     0 \<le> tm_min t \<and> tm_min t \<le> 59 \<and> 0 \<le> tm_sec t \<and> tm_sec t \<le> 60"

definition tv_in_range :: "timeval \<Rightarrow> bool" where
  "tv_in_range tv \<longleftrightarrow> 0 \<le> tv_usec tv \<and> tv_usec tv < 1000000"

section \<open>Concrete states\<close>

text \<open>
  Two entries with the one-byte requests "A" and "B", at the addresses 10 and 11, and
  a cache of one bucket, so that every request hashes to bucket 0.
\<close>

definition entry_A :: cache_entry_t where
  "entry_A = \<lparr>request = [65], request_len = 1, deleted = False\<rparr>"

definition entry_B :: cache_entry_t where
  "entry_B = \<lparr>request = [66], request_len = 1, deleted = False\<rparr>"

definition time0 :: timeval where
  "time0 = \<lparr>tv_sec = 0, tv_usec = 0\<rparr>"

definition time1 :: timeval where
  "time1 = \<lparr>tv_sec = 1, tv_usec = 0\<rparr>"

definition cache_empty1 :: cache_t where
  "cache_empty1 = \<lparr>capacity = 1, array = [None], garbage_collector_running = True,
     entry_expired_time_ms = 100\<rparr>"

definition heap_AB :: heap where
  "heap_AB = \<lparr>nodes = Map.empty, entries = [10 \<mapsto> entry_A, 11 \<mapsto> entry_B], logged = []\<rparr>"

text \<open>After \<open>cache_add\<close> of "B" (node 1): bucket 0 is the chain 1.\<close>

definition cache_head1 :: cache_t where
  "cache_head1 = cache_empty1\<lparr>array := [Some 1]\<rparr>"

definition heap_chain_B :: heap where
  "heap_chain_B = heap_AB\<lparr>
     nodes := [1 \<mapsto> \<lparr>entry = 11, last_modified_time = time0, next_node = None\<rparr>],
     logged := [''Add new cache entry'']\<rparr>"

text \<open>After \<open>cache_add\<close> of "B" (node 1), then of "A" (node 2): the chain 2, 1.\<close>

definition cache_head2 :: cache_t where
  "cache_head2 = cache_empty1\<lparr>array := [Some 2]\<rparr>"

definition heap_chain_A_B :: heap where
  "heap_chain_A_B = heap_AB\<lparr>
     nodes := [1 \<mapsto> \<lparr>entry = 11, last_modified_time = time0, next_node = None\<rparr>,
               2 \<mapsto> \<lparr>entry = 10, last_modified_time = time0, next_node = Some 1\<rparr>],
     logged := [''Add new cache entry'', ''Add new cache entry'']\<rparr>"

text \<open>The same heap once node 2 and its entry are destroyed.\<close>

definition heap_A_destroyed :: heap where
  "heap_A_destroyed = heap_chain_A_B\<lparr>
     nodes := (nodes heap_chain_A_B)(2 := None),
     entries := (entries heap_chain_A_B)(10 := None),
     logged := logged heap_chain_A_B @ [''Cache entry destroy'']\<rparr>"

text \<open>The other order, "A" (node 1) then "B" (node 2): the chain 2, 1 with "B" first.\<close>

definition heap_chain_B_A :: heap where
  "heap_chain_B_A = heap_AB\<lparr>
     nodes := [1 \<mapsto> \<lparr>entry = 10, last_modified_time = time0, next_node = None\<rparr>,
               2 \<mapsto> \<lparr>entry = 11, last_modified_time = time0, next_node = Some 1\<rparr>],
     logged := [''Add new cache entry'', ''Add new cache entry'']\<rparr>"

text \<open>
  A chain of one node whose entry "A" has its \<open>deleted\<close> flag set.
\<close>

definition heap_one_deleted :: heap where
  "heap_one_deleted = \<lparr>
     nodes = [1 \<mapsto> \<lparr>entry = 10, last_modified_time = time0, next_node = None\<rparr>],
     entries = [10 \<mapsto> entry_A\<lparr>deleted := True\<rparr>],
     logged = []\<rparr>"

text \<open>
  Two entries with the same request "A", at 10 and 12; node 1 holds the first.
\<close>

definition heap_A_twice :: heap where
  "heap_A_twice = \<lparr>
     nodes = [1 \<mapsto> \<lparr>entry = 10, last_modified_time = time0, next_node = None\<rparr>],
     entries = [10 \<mapsto> entry_A, 12 \<mapsto> entry_A],
     logged = []\<rparr>"

text \<open>
  A pool of two slots, both taken, before and after the shutdown flag is set, and the
  globals when three tasks have been submitted.
\<close>

definition pool_full :: thread_pool_t where
  "pool_full = \<lparr>
     tasks = [\<lparr>task_id = 1, routine = 7, arg = 20\<rparr>, \<lparr>task_id = 2, routine = 7, arg = 21\<rparr>],
     pool_capacity = 2, pool_size = 2, front = 0, rear = 0, num_executors = 1,
     shutdown = False\<rparr>"

definition pool_full_shutdown :: thread_pool_t where
  "pool_full_shutdown = pool_full\<lparr>shutdown := True\<rparr>"

definition globals3 :: globals where
  "globals3 = \<lparr>id_counter = 3, pool_logged = []\<rparr>"

text \<open>A time of day and a date in range, and a clock reading 5 ms into its second.\<close>

definition tm_epoch :: tm where
  "tm_epoch = \<lparr>tm_year = 70, tm_mon = 0, tm_mday = 1, tm_hour = 0, tm_min = 0, tm_sec = 0\<rparr>"

definition tv_5ms :: timeval where
  "tv_5ms = \<lparr>tv_sec = 0, tv_usec = 5000\<rparr>"

text \<open>
  A cache of one bucket with an expiry of 1 ms, an insertion at 0.999999 s and a tick
  of the expirer at 1.000000 s, one microsecond later.
\<close>

definition cache_expiry1 :: cache_t where
  "cache_expiry1 = cache_empty1\<lparr>entry_expired_time_ms := 1\<rparr>"

definition time_insert :: timeval where
  "time_insert = \<lparr>tv_sec = 0, tv_usec = 999999\<rparr>"

definition time_tick :: timeval where
  "time_tick = \<lparr>tv_sec = 1, tv_usec = 0\<rparr>"

definition heap_inserted :: heap where
  "heap_inserted = heap_AB\<lparr>
     nodes := [1 \<mapsto> \<lparr>entry = 10, last_modified_time = time_insert, next_node = None\<rparr>],
     logged := [''Add new cache entry'']\<rparr>"

section \<open>Evaluation on the concrete states\<close>

lemmas hash_eval = hash_def hash_loop.simps INT_MIN_def INT_MAX_def signed_modulo_int_def

lemmas state_eval =
  entry_A_def entry_B_def time0_def time1_def cache_empty1_def heap_AB_def cache_head1_def
  heap_chain_B_def cache_head2_def heap_chain_A_B_def heap_A_destroyed_def heap_chain_B_A_def

lemmas op_eval =
  cache_add_def cache_node_create_def cache_get_def cache_delete_def cache_node_destroy_def
  cache_entry_destroy_def array_read_def array_write_def request_matches_def log_msg_def
  get_loop.simps delete_loop.simps SUCCESS_def ERROR_def NOT_FOUND_def

lemma create_one_bucket:
  "cache_create (Allocated ()) (Allocated ()) 1 100 h = (Some cache_empty1, h)"
  by (simp add: cache_create_def cache_empty1_def)

lemma hash_A: "hash (Some [65]) (Suc 0) 1 = Inr 0"
  by (simp add: hash_eval)

lemma hash_B: "hash (Some [66]) (Suc 0) 1 = Inr 0"
  by (simp add: hash_eval)

lemma add_B_first:
  "cache_add (Some cache_empty1) (Some 11) (Allocated 1) time0 heap_AB
     = Inr (SUCCESS, Some cache_head1, heap_chain_B)"
  by (simp add: op_eval state_eval hash_B)

lemma add_A_second:
  "cache_add (Some cache_head1) (Some 10) (Allocated 2) time0 heap_chain_B
     = Inr (SUCCESS, Some cache_head2, heap_chain_A_B)"
  by (simp add: op_eval state_eval hash_A)

lemma add_A_first:
  "cache_add (Some cache_empty1) (Some 10) (Allocated 1) time0 heap_AB
     = Inr (SUCCESS, Some cache_head1,
         heap_AB\<lparr>nodes := [1 \<mapsto> \<lparr>entry = 10, last_modified_time = time0, next_node = None\<rparr>],
           logged := [''Add new cache entry'']\<rparr>)"
  by (simp add: op_eval state_eval hash_A)

lemma add_B_second:
  "cache_add (Some cache_head1) (Some 11) (Allocated 2) time0
       (heap_AB\<lparr>nodes := [1 \<mapsto> \<lparr>entry = 10, last_modified_time = time0, next_node = None\<rparr>],
           logged := [''Add new cache entry'']\<rparr>)
     = Inr (SUCCESS, Some cache_head2, heap_chain_B_A)"
  by (simp add: op_eval state_eval hash_B)

text \<open>
  Scenario E2 in the order the specification gives: "A" is inserted, then "B". Both
  are found, and after the deletion of "A" (the second node of the chain) "B" is
  still found.
\<close>

lemma E2_A_then_B:
  "cache_get (Some cache_head2) (Some [65]) 1 time1 heap_chain_B_A
     = Some (Inr (Some 10, heap_chain_B_A\<lparr>nodes := (nodes heap_chain_B_A)(1 \<mapsto>
         \<lparr>entry = 10, last_modified_time = time1, next_node = None\<rparr>)\<rparr>))"
  "cache_get (Some cache_head2) (Some [66]) 1 time1 heap_chain_B_A
     = Some (Inr (Some 11, heap_chain_B_A\<lparr>nodes := (nodes heap_chain_B_A)(2 \<mapsto>
         \<lparr>entry = 11, last_modified_time = time1, next_node = Some 1\<rparr>)\<rparr>))"
  "cache_delete (Some cache_head2) (Some [65]) 1 heap_chain_B_A
     = Some (Inr (SUCCESS, Some cache_head2,
         heap_chain_B_A\<lparr>
           nodes := [2 \<mapsto> \<lparr>entry = 11, last_modified_time = time0, next_node = None\<rparr>],
           entries := (entries heap_chain_B_A)(10 := None),
           logged := logged heap_chain_B_A @ [''Cache entry destroy'']\<rparr>))"
  "cache_get (Some cache_head2) (Some [66]) 1 time1
       (heap_chain_B_A\<lparr>
           nodes := [2 \<mapsto> \<lparr>entry = 11, last_modified_time = time0, next_node = None\<rparr>],
           entries := (entries heap_chain_B_A)(10 := None),
           logged := logged heap_chain_B_A @ [''Cache entry destroy'']\<rparr>)
     = Some (Inr (Some 11,
         heap_chain_B_A\<lparr>
           nodes := [2 \<mapsto> \<lparr>entry = 11, last_modified_time = time1, next_node = None\<rparr>],
           entries := (entries heap_chain_B_A)(10 := None),
           logged := logged heap_chain_B_A @ [''Cache entry destroy'']\<rparr>))"
  by (simp_all add: op_eval state_eval hash_A hash_B fun_upd_twist)

text \<open>
  C1. \<open>cache_delete\<close> is claimed to unlink and destroy the first node whose entry
  has the fingerprint, so that no bucket chain contains that node afterwards and every
  other node is still returned by \<open>cache_get\<close>. In the cache of one bucket where "B"
  was added and then "A", the chain is node 2 ("A"), node 1 ("B"). Deleting "A" returns
  \<open>SUCCESS\<close> and destroys node 2 and its entry, but the cache is unchanged: bucket 0
  still points to node 2, which is no longer in the heap. The next \<open>cache_get\<close> of "B"
  starts at the destroyed node.
\<close>

theorem cache_delete_head_with_successor:
  "cache_add (Some cache_empty1) (Some 11) (Allocated 1) time0 heap_AB
     = Inr (SUCCESS, Some cache_head1, heap_chain_B) \<and>
   cache_add (Some cache_head1) (Some 10) (Allocated 2) time0 heap_chain_B
     = Inr (SUCCESS, Some cache_head2, heap_chain_A_B) \<and>
   cache_delete (Some cache_head2) (Some [65]) 1 heap_chain_A_B
     = Some (Inr (SUCCESS, Some cache_head2, heap_A_destroyed)) \<and>
   array cache_head2 = [Some 2] \<and>
   nodes heap_A_destroyed 2 = None \<and>
   cache_get (Some cache_head2) (Some [66]) 1 time1 heap_A_destroyed = Some (Inl UseAfterFree)"
proof -
  have "cache_delete (Some cache_head2) (Some [65]) 1 heap_chain_A_B
     = Some (Inr (SUCCESS, Some cache_head2, heap_A_destroyed))"
    by (simp add: op_eval state_eval hash_A)
  moreover have "cache_get (Some cache_head2) (Some [66]) 1 time1 heap_A_destroyed
     = Some (Inl UseAfterFree)"
    by (simp add: op_eval state_eval hash_B)
  moreover have "array cache_head2 = [Some 2]" "nodes heap_A_destroyed 2 = None"
    by (simp_all add: state_eval)
  ultimately show ?thesis
    using add_B_first add_A_second by simp
qed

text \<open>
  C4. The bucket index is claimed to equal the reference fold and to lie in
  \<open>[0, capacity)\<close>. For the one-byte fingerprint \<open>0xFF\<close> and capacity 4 the
  function returns \<open>-1\<close>: the byte is read as the signed char \<open>-1\<close> and \<open>%\<close>
  truncates towards zero. The reference fold gives 3.
\<close>

theorem hash_negative_index:
  "hash (Some [255]) 1 4 = Inr (- 1) \<and> hash_spec [255] 4 = 3"
  by (simp add: hash_eval hash_spec_def)

text \<open>
  C3. Every public operation called with a NULL pointer is claimed to log the error
  and to return \<open>ERROR\<close>, NULL or nothing. The four cache operations do so for a
  NULL cache, and \<open>cache_add\<close> for a NULL entry. \<open>thread_pool_execute\<close> has no such
  test: its first statement reads \<open>pool->shutdown\<close>, so a NULL pool is dereferenced.
\<close>

theorem null_arguments:
  "cache_get None req len now h
     = Some (Inr (None, log_msg ''Cache getting error: cache is NULL'' h)) \<and>
   cache_add None ent al now h
     = Inr (ERROR, None, log_msg ''Cache adding error: cache is NULL'' h) \<and>
   cache_add (Some c) None al now h
     = Inr (ERROR, Some c, log_msg ''Cache adding error: cache entry is NULL'' h) \<and>
   cache_delete None req len h
     = Some (Inr (ERROR, None, log_msg ''Cache deleting error: cache is NULL'' h)) \<and>
   cache_destroy None h
     = Some (Inr (log_msg ''Cache destroying error: cache is NULL'' h)) \<and>
   thread_pool_execute None rt ar wakeups g = Some (Inl NullDeref)"
  by (simp add: cache_get_def cache_add_def cache_delete_def cache_destroy_def
      thread_pool_execute_def)

text \<open>
  C5. On a tick the expirer is claimed to remove, by the ordinary delete path, exactly
  the nodes whose age has reached \<open>expiry_ms\<close>. In the one-bucket cache with the chain
  node 2 ("A"), node 1 ("B"), both last active at 0 s, an expiry of 100 ms and a tick
  at 1 s, both nodes are 1000 ms old. The expirer deletes "A" first: node 2 is
  destroyed and stays the head of the bucket. Its call of \<open>cache_delete\<close> for "B"
  then starts its walk at the destroyed node.
\<close>

theorem expirer_two_expired_nodes:
  "entry_expired_time_ms cache_head2 = 100 \<and>
   diff time1 time0 = 1000 \<and>
   usleep_arg cache_head2 = 50000 \<and>
   cache_delete (Some cache_head2) (Some [65]) 1 heap_chain_A_B
     = Some (Inr (SUCCESS, Some cache_head2, heap_A_destroyed)) \<and>
   cache_delete (Some cache_head2) (Some [66]) 1 heap_A_destroyed = Some (Inl UseAfterFree) \<and>
   garbage_collector_tick time1 cache_head2 heap_chain_A_B = Some (Inl UseAfterFree)"
proof -
  have d1: "cache_delete (Some cache_head2) (Some [65]) (Suc 0) heap_chain_A_B
     = Some (Inr (SUCCESS, Some cache_head2, heap_A_destroyed))"
    by (simp add: op_eval state_eval hash_A)
  have d2: "cache_delete (Some cache_head2) (Some [66]) (Suc 0) heap_A_destroyed
     = Some (Inl UseAfterFree)"
    by (simp add: op_eval state_eval hash_B)
  have n2: "nodes heap_chain_A_B 2 = Some \<lparr>entry = 10, last_modified_time = time0, next_node = Some 1\<rparr>"
    and n1: "nodes heap_A_destroyed (Suc 0) = Some \<lparr>entry = 11, last_modified_time = time0, next_node = None\<rparr>"
    and e2: "entries heap_chain_A_B 10 = Some entry_A"
    and e1: "entries heap_A_destroyed 11 = Some entry_B"
    by (simp_all add: heap_chain_A_B_def heap_A_destroyed_def heap_AB_def)
  have age: "diff time1 time0 = 1000"
    by (simp add: diff_def time1_def time0_def signed_divide_int_def)
  have expiry: "entry_expired_time_ms cache_head2 = 100" "capacity cache_head2 = 1"
    "array_read cache_head2 0 = Inr (Some 2)"
    by (simp_all add: cache_head2_def cache_empty1_def array_read_def)
  have "gc_chain (Some 2) time1 cache_head2 heap_chain_A_B = Some (Inl UseAfterFree)"
    by (simp add: gc_chain.simps n2 n1 e2 e1 age expiry d1 d2 entry_A_def entry_B_def)
  then have "garbage_collector_tick time1 cache_head2 heap_chain_A_B = Some (Inl UseAfterFree)"
    by (simp add: garbage_collector_tick_def gc_for.simps expiry)
  moreover have "usleep_arg cache_head2 = 50000"
    by (simp add: usleep_arg_def expiry signed_divide_int_def)
  ultimately show ?thesis
    using d1 d2 age expiry by simp
qed

text \<open>
  The sleep between two rounds, for an expiry that is not negative: half the expiry,
  at most one second.
\<close>

lemma usleep_arg_min:
  "0 \<le> entry_expired_time_ms c \<Longrightarrow>
   usleep_arg c = min (500 * entry_expired_time_ms c) 1000000"
proof -
  assume "0 \<le> entry_expired_time_ms c"
  then have "0 \<le> 1000 * entry_expired_time_ms c"
    by simp
  then have "(1000 * entry_expired_time_ms c) sdiv 2 = (1000 * entry_expired_time_ms c) div 2"
    by (cases "entry_expired_time_ms c = 0") (simp_all add: signed_divide_int_def sgn_if)
  moreover have "(1000 * entry_expired_time_ms c) div 2 = 500 * entry_expired_time_ms c"
    by simp
  ultimately show ?thesis
    by (simp add: usleep_arg_def min_def)
qed

section \<open>The lookup loop\<close>

lemma hash_loop_reads_in_bounds:
  "hash_loop r len sz i hv = Inr x \<Longrightarrow> i < len \<Longrightarrow> len \<le> length r"
proof (induction r len sz i hv rule: hash_loop.induct)
  case (1 req len sz i hash_value)
  let ?v = "hash_value * 31 + sint (req ! i)"
  from "1.prems" have step:
    "\<not> length req \<le> i"
    "\<not> (hash_value * 31 < INT_MIN \<or> INT_MAX < hash_value * 31)"
    "\<not> (?v < INT_MIN \<or> INT_MAX < ?v)"
    "sz \<noteq> 0"
    "hash_loop req len sz (Suc i) (?v smod sz) = Inr x"
    by (subst (asm) hash_loop.simps, auto simp: Let_def split: if_splits)+
  show ?case
  proof (cases "Suc i < len")
    case True
    with "1.IH" [OF "1.prems"(2) step(1,2) refl step(3,4,5)] show ?thesis
      by simp
  next
    case False
    with "1.prems"(2) step(1) show ?thesis by simp
  qed
qed

lemma hash_reads_in_bounds:
  "hash (Some r) len sz = Inr x \<Longrightarrow> len \<le> length r"
  using hash_loop_reads_in_bounds [of r len sz 0 0 x]
  by (cases "0 < len") (simp_all add: hash_def)

lemma strncmp_self: "n \<le> length s \<Longrightarrow> strncmp s s n = Inr 0"
proof (induction s arbitrary: n)
  case Nil
  then show ?case by simp
next
  case (Cons c s)
  then show ?case by (cases n) simp_all
qed

lemma request_matches_self:
  "request_len en \<le> length (request en)
   \<Longrightarrow> request_matches en (Some (request en)) (request_len en) = Inr True"
  by (simp add: request_matches_def strncmp_self)

lemma found_here:
  "nodes h a = Some nd \<Longrightarrow> entries h (entry nd) = Some en \<Longrightarrow>
   request_matches en req len = Inr True \<Longrightarrow>
   found (Some a) req len now h (entry nd)
     (h\<lparr>nodes := (nodes h)(a \<mapsto> nd\<lparr>last_modified_time := now\<rparr>)\<rparr>)"
  unfolding found_def
  by (intro exI [of _ "[]"] exI [of _ a] exI [of _ nd] exI [of _ en]) (auto intro: walks.here)

lemma found_step:
  assumes "nodes h a = Some nd" and "entries h (entry nd) = Some en"
    and "request_matches en req len = Inr False"
    and "found (next_node nd) req len now h e h'"
  shows "found (Some a) req len now h e h'"
proof -
  from assms(4) obtain bs a' nd' en' where
    r: "walks h (next_node nd) bs a'" "list_all (no_match h req len) bs"
      "nodes h a' = Some nd'" "entry nd' = e" "entries h e = Some en'"
      "request_matches en' req len = Inr True"
      "h' = h\<lparr>nodes := (nodes h)(a' \<mapsto> nd'\<lparr>last_modified_time := now\<rparr>)\<rparr>"
    unfolding found_def by blast
  have "no_match h req len a"
    using assms(1-3) by (simp add: no_match_def)
  with r assms(1) show ?thesis
    unfolding found_def
    by (intro exI [of _ "a # bs"] exI [of _ a'] exI [of _ nd'] exI [of _ en'])
      (auto intro: walks.step)
qed

text \<open>
  Whatever the loop returns as an entry is the first match of the chain, and a loop
  that returns no entry has changed nothing.
\<close>

lemma get_loop_result:
  assumes "get_loop cur req len now h = Some y"
  shows "(\<forall>e h'. y = Inr (Some e, h') \<longrightarrow> found cur req len now h e h') \<and>
         (\<forall>h'. y = Inr (None, h') \<longrightarrow> h' = h)"
  using assms
proof (rule get_loop.raw_induct
    [rotated 1, where P = "\<lambda>cur req len now h y.
       (\<forall>e h'. y = Inr (Some e, h') \<longrightarrow> found cur req len now h e h') \<and>
       (\<forall>h'. y = Inr (None, h') \<longrightarrow> h' = h)"])
  fix f cur req len now h y
  assume IH: "\<And>cur req len now h y. f cur req len now h = Some y \<Longrightarrow>
      (\<forall>e h'. y = Inr (Some e, h') \<longrightarrow> found cur req len now h e h') \<and>
      (\<forall>h'. y = Inr (None, h') \<longrightarrow> h' = h)"
    and body: "(case cur of
      None \<Rightarrow> Some (Inr (None, h))
    | Some a \<Rightarrow>
        (case nodes h a of
           None \<Rightarrow> Some (Inl UseAfterFree)
         | Some nd \<Rightarrow>
             (case entries h (entry nd) of
                None \<Rightarrow> Some (Inl UseAfterFree)
              | Some e \<Rightarrow>
                  (case request_matches e req len of
                     Inl f \<Rightarrow> Some (Inl f)
                   | Inr m \<Rightarrow>
                       if m then
                         Some (Inr (Some (entry nd),
                           h\<lparr>nodes := (nodes h)(a \<mapsto> nd\<lparr>last_modified_time := now\<rparr>)\<rparr>))
                       else f (next_node nd) req len now h)))) = Some y"
  show "(\<forall>e h'. y = Inr (Some e, h') \<longrightarrow> found cur req len now h e h') \<and>
        (\<forall>h'. y = Inr (None, h') \<longrightarrow> h' = h)"
    using body
    by (auto split: option.splits sum.splits if_splits
        intro: found_here found_step dest!: IH)
qed

lemma get_loop_found:
  "get_loop cur req len now h = Some (Inr (Some e, h')) \<Longrightarrow> found cur req len now h e h'"
  using get_loop_result by blast

lemma get_loop_absent:
  "get_loop cur req len now h = Some (Inr (None, h')) \<Longrightarrow> h' = h"
  using get_loop_result by blast

text \<open>Conversely, where the chain has a first match the loop returns it.\<close>

lemma walks_get_loop:
  assumes "walks h cur bs a"
    and "list_all (no_match h req len) bs"
    and "nodes h a = Some nd" and "entries h (entry nd) = Some en"
    and "request_matches en req len = Inr True"
  shows "get_loop cur req len now h
     = Some (Inr (Some (entry nd), h\<lparr>nodes := (nodes h)(a \<mapsto> nd\<lparr>last_modified_time := now\<rparr>)\<rparr>))"
  using assms
proof (induction rule: walks.induct)
  case (here h a)
  then show ?case
    by (subst get_loop.simps) simp
next
  case (step h b nb bs a)
  from step.prems(1) step.hyps(1) obtain eb where
    "entries h (entry nb) = Some eb" "request_matches eb req len = Inr False"
    by (auto simp: no_match_def split: option.splits)
  moreover have "get_loop (next_node nb) req len now h
     = Some (Inr (Some (entry nd), h\<lparr>nodes := (nodes h)(a \<mapsto> nd\<lparr>last_modified_time := now\<rparr>)\<rparr>))"
    using step.prems by (intro step.IH) simp_all
  ultimately show ?case
    using step.hyps(1) by (subst get_loop.simps) simp
qed

lemma found_get_loop:
  "found cur req len now h e h' \<Longrightarrow> get_loop cur req len now h = Some (Inr (Some e, h'))"
  unfolding found_def using walks_get_loop by blast

lemma cache_get_found:
  assumes "cache_get (Some c) req len now h = Some (Inr (Some e, h'))"
  shows "\<exists>index cur. hash req len (capacity c) = Inr index \<and> array_read c index = Inr cur \<and>
           found cur req len now h e h'"
  using assms
  by (auto simp: cache_get_def split: sum.splits dest: get_loop_found)

lemma walks_same_nodes:
  "walks h cur bs a \<Longrightarrow> nodes h2 = nodes h \<Longrightarrow> walks h2 cur bs a"
proof (induction rule: walks.induct)
  case (here h a)
  show ?case by (rule walks.here)
next
  case (step h b nd bs a)
  then show ?case by (auto intro: walks.step)
qed

lemma request_matches_deleted:
  "request_matches (en\<lparr>deleted := d\<rparr>) req len = request_matches en req len"
  by (cases req) (simp_all add: request_matches_def)

lemma no_match_set_deleted:
  assumes "entries h e = Some en"
  shows "no_match (h\<lparr>entries := (entries h)(e \<mapsto> en\<lparr>deleted := d\<rparr>)\<rparr>) req len
     = no_match h req len"
  using assms
  by (auto simp: fun_eq_iff no_match_def request_matches_deleted split: option.splits)

lemma found_set_deleted:
  assumes "found cur req len now h e h'" and "entries h e = Some en"
  shows "found cur req len now (h\<lparr>entries := (entries h)(e \<mapsto> en\<lparr>deleted := d\<rparr>)\<rparr>) e
           (h'\<lparr>entries := (entries h)(e \<mapsto> en\<lparr>deleted := d\<rparr>)\<rparr>)"
proof -
  let ?h2 = "h\<lparr>entries := (entries h)(e \<mapsto> en\<lparr>deleted := d\<rparr>)\<rparr>"
  from assms obtain bs a nd where
    r: "walks h cur bs a" "list_all (no_match h req len) bs" "nodes h a = Some nd"
      "entry nd = e" "request_matches en req len = Inr True"
      "h' = h\<lparr>nodes := (nodes h)(a \<mapsto> nd\<lparr>last_modified_time := now\<rparr>)\<rparr>"
    unfolding found_def by auto
  have "walks ?h2 cur bs a"
    using r(1) by (rule walks_same_nodes) simp
  moreover have "list_all (no_match ?h2 req len) bs"
    using r(2) assms(2) by (simp add: no_match_set_deleted)
  moreover have "request_matches (en\<lparr>deleted := d\<rparr>) req len = Inr True"
    using r(5) by (simp add: request_matches_deleted)
  ultimately show ?thesis
    unfolding found_def using r(3,4,6)
    by (intro exI [of _ bs] exI [of _ a] exI [of _ nd] exI [of _ "en\<lparr>deleted := d\<rparr>"]) simp
qed

section \<open>Properties of the cache\<close>

text \<open>
  C6. When \<open>cache_add\<close> returns \<open>SUCCESS\<close> for the entry \<open>e\<close>, the new node is
  the head of the bucket of \<open>e\<close>'s request and the old head is its successor. A
  \<open>cache_get\<close> on the request of \<open>e\<close> right after returns \<open>e\<close> itself: the walk
  starts at the head, so the entry added last is returned even when older nodes of the
  chain hold the same fingerprint. \<open>now2\<close> is the clock at the lookup.
\<close>

theorem add_then_get:
  assumes "cache_add (Some c) (Some e) al now h = Inr (SUCCESS, Some c', h')"
  shows "\<exists>a nd en index. al = Allocated a \<and> nodes h' a = Some nd \<and> entry nd = e \<and>
           entries h' e = Some en \<and>
           hash (Some (request en)) (request_len en) (capacity c) = Inr index \<and>
           array_read c' index = Inr (Some a) \<and> array_read c index = Inr (next_node nd) \<and>
           cache_get (Some c') (Some (request en)) (request_len en) now2 h'
             = Some (Inr (Some e,
                 h'\<lparr>nodes := (nodes h')(a \<mapsto> nd\<lparr>last_modified_time := now2\<rparr>)\<rparr>))"
proof -
  from assms obtain a where a: "al = Allocated a"
    by (cases al) (auto simp: cache_add_def cache_node_create_def SUCCESS_def ERROR_def)
  let ?h1 = "h\<lparr>nodes := (nodes h)(a \<mapsto> \<lparr>entry = e, last_modified_time = now, next_node = None\<rparr>)\<rparr>"
  from assms a obtain en index old_head where
    en: "entries h e = Some en"
    and index: "hash (Some (request en)) (request_len en) (capacity c) = Inr index"
    and old_head: "array_read c index = Inr old_head"
    and c': "array_write c index (Some a) = Inr c'"
    and h': "h' = log_msg ''Add new cache entry''
        (?h1\<lparr>nodes := (nodes ?h1)(a \<mapsto>
           \<lparr>entry = e, last_modified_time = now, next_node = old_head\<rparr>)\<rparr>)"
    by (auto simp: cache_add_def cache_node_create_def split: option.splits sum.splits)
  let ?nd = "\<lparr>entry = e, last_modified_time = now, next_node = old_head\<rparr>"
  have nd: "nodes h' a = Some ?nd" and en': "entries h' e = Some en"
    using en by (simp_all add: h' log_msg_def)
  from c' have range: "0 \<le> index" "index < int (length (array c))"
    and c'_eq: "c' = c\<lparr>array := (array c)[nat index := Some a]\<rparr>"
    by (auto simp: array_write_def split: if_splits)
  have head: "array_read c' index = Inr (Some a)"
    using range by (simp add: c'_eq array_read_def)
  have "request_len en \<le> length (request en)"
    using index by (rule hash_reads_in_bounds)
  then have "request_matches en (Some (request en)) (request_len en) = Inr True"
    by (rule request_matches_self)
  with nd en' have "get_loop (Some a) (Some (request en)) (request_len en) now2 h'
     = Some (Inr (Some e, h'\<lparr>nodes := (nodes h')(a \<mapsto> ?nd\<lparr>last_modified_time := now2\<rparr>)\<rparr>))"
    by (subst get_loop.simps) simp
  with head index have "cache_get (Some c') (Some (request en)) (request_len en) now2 h'
     = Some (Inr (Some e, h'\<lparr>nodes := (nodes h')(a \<mapsto> ?nd\<lparr>last_modified_time := now2\<rparr>)\<rparr>))"
    by (simp add: cache_get_def c'_eq)
  with a nd en' index head old_head show ?thesis
    by (intro exI [of _ a] exI [of _ ?nd] exI [of _ en] exI [of _ index]) simp
qed

lemma add_A_again:
  "cache_add (Some cache_head1) (Some 12) (Allocated 2) time0 heap_A_twice
     = Inr (SUCCESS, Some cache_head2,
         heap_A_twice\<lparr>nodes := (nodes heap_A_twice)(2 \<mapsto>
             \<lparr>entry = 12, last_modified_time = time0, next_node = Some 1\<rparr>),
           logged := [''Add new cache entry'']\<rparr>)"
  by (simp add: op_eval state_eval heap_A_twice_def hash_A)

text \<open>
  Witness: the chain holds "A" (entry 10) already; the entry 12, also "A", is added,
  and the lookup of "A" returns 12.
\<close>

theorem add_then_get_witness:
  "cache_add (Some cache_head1) (Some 12) (Allocated 2) time0 heap_A_twice
     = Inr (SUCCESS, Some cache_head2,
         heap_A_twice\<lparr>nodes := (nodes heap_A_twice)(2 \<mapsto>
             \<lparr>entry = 12, last_modified_time = time0, next_node = Some 1\<rparr>),
           logged := [''Add new cache entry'']\<rparr>) \<and>
   map_option (map_sum id fst)
     (cache_get (Some cache_head2) (Some [65]) 1 time1
       (heap_A_twice\<lparr>nodes := (nodes heap_A_twice)(2 \<mapsto>
             \<lparr>entry = 12, last_modified_time = time0, next_node = Some 1\<rparr>),
           logged := [''Add new cache entry'']\<rparr>))
     = Some (Inr (Some 12))"
  using add_then_get [OF add_A_again, of time1] add_A_again
  by (auto simp: heap_A_twice_def entry_A_def)

text \<open>
  C7. A \<open>cache_get\<close> that returns an entry has found it in the first node of the
  bucket chain whose entry matches the request, and has set the \<open>last_modified_time\<close>
  of exactly that node to the clock read at the lookup; no other node changes.
\<close>

theorem cache_get_refreshes_last_activity:
  assumes "cache_get (Some c) req len now h = Some (Inr (Some e, h'))"
  shows "\<exists>index cur bs a nd en.
           hash req len (capacity c) = Inr index \<and> array_read c index = Inr cur \<and>
           walks h cur bs a \<and> list_all (no_match h req len) bs \<and>
           nodes h a = Some nd \<and> entry nd = e \<and>
           entries h e = Some en \<and> request_matches en req len = Inr True \<and>
           nodes h' a = Some (nd\<lparr>last_modified_time := now\<rparr>) \<and>
           (\<forall>b. b \<noteq> a \<longrightarrow> nodes h' b = nodes h b)"
proof -
  from cache_get_found [OF assms] obtain index cur where
    ic: "hash req len (capacity c) = Inr index" "array_read c index = Inr cur"
    and f: "found cur req len now h e h'"
    by blast
  from f obtain bs a nd en where
    r: "walks h cur bs a" "list_all (no_match h req len) bs" "nodes h a = Some nd"
      "entry nd = e" "entries h e = Some en" "request_matches en req len = Inr True"
      "h' = h\<lparr>nodes := (nodes h)(a \<mapsto> nd\<lparr>last_modified_time := now\<rparr>)\<rparr>"
    unfolding found_def by blast
  from r(7) have "nodes h' a = Some (nd\<lparr>last_modified_time := now\<rparr>)"
    "\<forall>b. b \<noteq> a \<longrightarrow> nodes h' b = nodes h b"
    by simp_all
  with ic r(1-6) show ?thesis by blast
qed

lemma get_B_in_chain_A_B:
  "cache_get (Some cache_head2) (Some [66]) 1 time1 heap_chain_A_B
     = Some (Inr (Some 11, heap_chain_A_B\<lparr>nodes := (nodes heap_chain_A_B)(1 \<mapsto>
         \<lparr>entry = 11, last_modified_time = time1, next_node = None\<rparr>)\<rparr>))"
  by (simp add: op_eval state_eval hash_B)

text \<open>
  Witness: in the chain node 2 ("A"), node 1 ("B"), the lookup of "B" at 1 s passes
  node 2, returns the entry 11 and stamps node 1 with 1 s.
\<close>

theorem cache_get_refreshes_last_activity_witness:
  "cache_get (Some cache_head2) (Some [66]) 1 time1 heap_chain_A_B
     = Some (Inr (Some 11, heap_chain_A_B\<lparr>nodes := (nodes heap_chain_A_B)(1 \<mapsto>
         \<lparr>entry = 11, last_modified_time = time1, next_node = None\<rparr>)\<rparr>)) \<and>
   (\<exists>index cur bs a nd en.
      hash (Some [66]) 1 (capacity cache_head2) = Inr index \<and>
      array_read cache_head2 index = Inr cur \<and>
      walks heap_chain_A_B cur bs a \<and> list_all (no_match heap_chain_A_B (Some [66]) 1) bs \<and>
      nodes heap_chain_A_B a = Some nd \<and> entry nd = 11 \<and>
      entries heap_chain_A_B 11 = Some en \<and> request_matches en (Some [66]) 1 = Inr True \<and>
      nodes (heap_chain_A_B\<lparr>nodes := (nodes heap_chain_A_B)(1 \<mapsto>
         \<lparr>entry = 11, last_modified_time = time1, next_node = None\<rparr>)\<rparr>) a
        = Some (nd\<lparr>last_modified_time := time1\<rparr>))"
  using cache_get_refreshes_last_activity [OF get_B_in_chain_A_B] get_B_in_chain_A_B
  by blast

text \<open>
  C2 (as the code has it). \<open>cache_get\<close> never reads the \<open>deleted\<close> flag. An entry
  it returns is held by a live node that is linked in the bucket chain of the request,
  and the call returns the same entry whatever the value \<open>d\<close> of that entry's flag.
\<close>

theorem cache_get_ignores_deleted_flag:
  assumes "cache_get (Some c) req len now h = Some (Inr (Some e, h'))"
  shows "\<exists>index cur bs a nd en.
           hash req len (capacity c) = Inr index \<and> array_read c index = Inr cur \<and>
           walks h cur bs a \<and> nodes h a = Some nd \<and> entry nd = e \<and>
           entries h e = Some en \<and> entries h' e = Some en \<and>
           cache_get (Some c) req len now (h\<lparr>entries := (entries h)(e \<mapsto> en\<lparr>deleted := d\<rparr>)\<rparr>)
             = Some (Inr (Some e, h'\<lparr>entries := (entries h)(e \<mapsto> en\<lparr>deleted := d\<rparr>)\<rparr>))"
proof -
  from cache_get_found [OF assms] obtain index cur where
    ic: "hash req len (capacity c) = Inr index" "array_read c index = Inr cur"
    and f: "found cur req len now h e h'"
    by blast
  from f obtain bs a nd en where
    r: "walks h cur bs a" "nodes h a = Some nd" "entry nd = e" "entries h e = Some en"
      "h' = h\<lparr>nodes := (nodes h)(a \<mapsto> nd\<lparr>last_modified_time := now\<rparr>)\<rparr>"
    unfolding found_def by blast
  let ?h2 = "h\<lparr>entries := (entries h)(e \<mapsto> en\<lparr>deleted := d\<rparr>)\<rparr>"
  have "get_loop cur req len now ?h2
     = Some (Inr (Some e, h'\<lparr>entries := (entries h)(e \<mapsto> en\<lparr>deleted := d\<rparr>)\<rparr>))"
    using found_set_deleted [OF f r(4)] by (rule found_get_loop)
  with ic have "cache_get (Some c) req len now ?h2
     = Some (Inr (Some e, h'\<lparr>entries := (entries h)(e \<mapsto> en\<lparr>deleted := d\<rparr>)\<rparr>))"
    by (simp add: cache_get_def)
  moreover have "entries h' e = Some en"
    using r(4,5) by simp
  ultimately show ?thesis
    using ic r(1-4) by blast
qed

lemma get_deleted_entry:
  "cache_get (Some cache_head1) (Some [65]) 1 time1 heap_one_deleted
     = Some (Inr (Some 10, heap_one_deleted\<lparr>nodes :=
         [1 \<mapsto> \<lparr>entry = 10, last_modified_time = time1, next_node = None\<rparr>]\<rparr>))"
  by (simp add: op_eval state_eval heap_one_deleted_def hash_A)

theorem cache_get_ignores_deleted_flag_witness:
  "cache_get (Some cache_head1) (Some [65]) 1 time1 heap_one_deleted
     = Some (Inr (Some 10, heap_one_deleted\<lparr>nodes :=
         [1 \<mapsto> \<lparr>entry = 10, last_modified_time = time1, next_node = None\<rparr>]\<rparr>)) \<and>
   (\<exists>index cur bs a nd en.
      hash (Some [65]) 1 (capacity cache_head1) = Inr index \<and>
      array_read cache_head1 index = Inr cur \<and>
      walks heap_one_deleted cur bs a \<and> nodes heap_one_deleted a = Some nd \<and> entry nd = 10 \<and>
      entries heap_one_deleted 10 = Some en \<and>
      cache_get (Some cache_head1) (Some [65]) 1 time1
          (heap_one_deleted\<lparr>entries := (entries heap_one_deleted)(10 \<mapsto> en\<lparr>deleted := False\<rparr>)\<rparr>)
        = Some (Inr (Some 10, heap_one_deleted\<lparr>nodes :=
             [1 \<mapsto> \<lparr>entry = 10, last_modified_time = time1, next_node = None\<rparr>],
             entries := (entries heap_one_deleted)(10 \<mapsto> en\<lparr>deleted := False\<rparr>)\<rparr>)))"
  using cache_get_ignores_deleted_flag [OF get_deleted_entry, of False] get_deleted_entry
  by auto

text \<open>
  The claim C2 as stated fails: with a chain of one node whose entry "A" has the flag
  set, \<open>cache_get\<close> of "A" returns that entry, flag set.
\<close>

theorem cache_get_returns_deleted_entry:
  "cache_get (Some cache_head1) (Some [65]) 1 time1 heap_one_deleted
     = Some (Inr (Some 10, heap_one_deleted\<lparr>nodes :=
         [1 \<mapsto> \<lparr>entry = 10, last_modified_time = time1, next_node = None\<rparr>]\<rparr>)) \<and>
   map_option deleted (entries (heap_one_deleted\<lparr>nodes :=
         [1 \<mapsto> \<lparr>entry = 10, last_modified_time = time1, next_node = None\<rparr>]\<rparr>) 10) = Some True"
  using get_deleted_entry by (simp add: heap_one_deleted_def)

section \<open>Properties of the worker pool\<close>

text \<open>
  C8. When the shutdown flag is set at the call, \<open>thread_pool_execute\<close> logs and
  returns with the pool untouched. When the flag is clear at the call and the wait on
  \<open>not_full\<close> ends in a pool \<open>q\<close> whose flag is set, it returns with \<open>q\<close> as the other
  threads left it: count, front, rear and tasks are not written, and no task id is
  drawn. In both cases the call returns.
\<close>

theorem execute_under_shutdown:
  "(shutdown p \<longrightarrow>
      thread_pool_execute (Some p) rt ar wakeups g
        = Some (Inr (p, g\<lparr>pool_logged := pool_logged g @
            [''Thread pool execution error: thread pool was shutdown'']\<rparr>))) \<and>
   (\<not> shutdown p \<and> wait_not_full p wakeups = Some q \<and> shutdown q \<longrightarrow>
      thread_pool_execute (Some p) rt ar wakeups g = Some (Inr (q, g)))"
  by (simp add: thread_pool_execute_def)

text \<open>
  Witness: a submission to the full pool whose flag is set, and a submission to the
  full pool that is woken up by the shutdown.
\<close>

theorem execute_under_shutdown_witness:
  "shutdown pool_full_shutdown \<and>
   thread_pool_execute (Some pool_full_shutdown) 7 22 [] globals3
     = Some (Inr (pool_full_shutdown, globals3\<lparr>pool_logged :=
         [''Thread pool execution error: thread pool was shutdown'']\<rparr>)) \<and>
   \<not> shutdown pool_full \<and>
   wait_not_full pool_full [pool_full_shutdown] = Some pool_full_shutdown \<and>
   thread_pool_execute (Some pool_full) 7 22 [pool_full_shutdown] globals3
     = Some (Inr (pool_full_shutdown, globals3))"
  using execute_under_shutdown [of pool_full_shutdown 7 22 "[]" globals3]
    execute_under_shutdown [where p = pool_full and wakeups = "[pool_full_shutdown]"
      and q = pool_full_shutdown and rt = 7 and ar = 22 and g = globals3]
  by (simp add: pool_full_shutdown_def pool_full_def globals3_def)

text \<open>
  A shutdown among the wake-ups ends the wait: the submitter does not stay blocked.
\<close>

lemma wait_not_full_shutdown: "shutdown p \<Longrightarrow> wait_not_full p wakeups = Some p"
  by (cases wakeups) simp_all

lemma wait_not_full_returns:
  "\<exists>q \<in> set wakeups. shutdown q \<Longrightarrow> wait_not_full p wakeups \<noteq> None"
  by (induction wakeups arbitrary: p) (auto simp: wait_not_full_shutdown)

text \<open>With room in the queue and no shutdown, the task is stored at \<open>rear\<close>.\<close>

lemma execute_enqueues:
  assumes "\<not> shutdown p" and "pool_size p \<noteq> pool_capacity p"
    and "0 \<le> rear p" and "rear p < int (length (tasks p))" and "pool_capacity p \<noteq> 0"
  shows "thread_pool_execute (Some p) rt ar wakeups g
     = Some (Inr (p\<lparr>tasks := (tasks p)[nat (rear p) :=
                       \<lparr>task_id = id_counter g, routine = rt, arg = ar\<rparr>],
                     rear := (rear p + 1) smod pool_capacity p,
                     pool_size := pool_size p + 1\<rparr>,
                  g\<lparr>id_counter := id_counter g + 1\<rparr>))"
  using assms by (cases wakeups) (simp_all add: thread_pool_execute_def)

section \<open>Properties of the log sink\<close>

lemma is_digit_nth: "k < 10 \<Longrightarrow> is_digit (''0123456789'' ! k)"
  unfolding is_digit_def by (rule nth_mem) simp

lemma digits_all_digits: "list_all is_digit (digits n)"
proof (induction n rule: digits.induct)
  case (1 n)
  show ?case
  proof (cases "n < 10")
    case True
    then show ?thesis
      by (subst digits.simps) (simp add: is_digit_nth)
  next
    case False
    with 1 show ?thesis
      by (subst digits.simps) (simp add: is_digit_nth)
  qed
qed

lemma length_digits: "n < 10 ^ w \<Longrightarrow> 0 < w \<Longrightarrow> length (digits n) \<le> w"
proof (induction n arbitrary: w rule: digits.induct)
  case (1 n)
  show ?case
  proof (cases "n < 10")
    case True
    with "1.prems" show ?thesis
      by (subst digits.simps) simp
  next
    case False
    from False "1.prems" obtain v where w: "w = Suc v"
      by (cases w) auto
    from False "1.prems" w have "0 < v"
      by (cases v) auto
    moreover from "1.prems" w have "n div 10 < 10 ^ v"
      by (simp add: less_mult_imp_div_less mult.commute)
    ultimately have "length (digits (n div 10)) \<le> v"
      using "1.IH" False by simp
    with False w show ?thesis
      by (subst digits.simps) simp
  qed
qed

lemma printf_0d_digits:
  assumes "0 \<le> n" and "n < 10 ^ w" and "0 < w"
  shows "length (printf_0d w n) = w \<and> list_all is_digit (printf_0d w n)"
proof -
  from assms have "nat n < 10 ^ w"
    by (simp add: nat_less_iff)
  then have "length (digits (nat n)) \<le> w"
    using assms(3) by (rule length_digits)
  moreover have "is_digit (CHR ''0'')"
    by (simp add: is_digit_def)
  ultimately show ?thesis
    using assms(1) digits_all_digits [of "nat n"]
    by (auto simp: printf_0d_def list_all_iff)
qed

lemma two_digits:
  "length s = 2 \<and> list_all is_digit s \<Longrightarrow> \<exists>a b. s = [a, b] \<and> is_digit a \<and> is_digit b"
  by (auto simp: length_Suc_conv numeral_2_eq_2)

lemma three_digits:
  "length s = 3 \<and> list_all is_digit s \<Longrightarrow>
   \<exists>a b c. s = [a, b, c] \<and> is_digit a \<and> is_digit b \<and> is_digit c"
  by (auto simp: length_Suc_conv numeral_3_eq_3)

lemma four_digits:
  "length s = 4 \<and> list_all is_digit s \<Longrightarrow>
   \<exists>a b c d. s = [a, b, c, d] \<and> is_digit a \<and> is_digit b \<and> is_digit c \<and> is_digit d"
  by (auto simp: length_Suc_conv numeral_eq_Suc)

lemma sdiv_1000_nonneg: "0 \<le> x \<Longrightarrow> x sdiv 1000 = x div 1000" for x :: int
  by (cases "x = 0") (simp_all add: signed_divide_int_def sgn_if)

lemma ms_range:
  fixes x :: int
  assumes "0 \<le> x" and "x < 1000000"
  shows "0 \<le> x sdiv 1000" and "x sdiv 1000 < 1000"
proof -
  from assms(1) show "0 \<le> x sdiv 1000"
    by (simp add: sdiv_1000_nonneg)
  from assms(2) have "x \<le> 999999"
    by simp
  then have "x div 1000 \<le> 999999 div 1000"
    by (rule zdiv_mono1) simp
  with assms(1) show "x sdiv 1000 < 1000"
    by (simp add: sdiv_1000_nonneg)
qed

lemma stamp_shape:
  assumes "is_digit y1" "is_digit y2" "is_digit y3" "is_digit y4" "is_digit m1" "is_digit m2"
    "is_digit d1" "is_digit d2" "is_digit h1" "is_digit h2" "is_digit i1" "is_digit i2"
    "is_digit s1" "is_digit s2" "is_digit u1" "is_digit u2" "is_digit u3"
  shows "has_shape ''YYYY-MM-DD HH:MM:SS.mmm''
     [y1, y2, y3, y4, CHR ''-'', m1, m2, CHR ''-'', d1, d2, CHR '' '', h1, h2, CHR '':'', i1, i2,
      CHR '':'', s1, s2, CHR ''.'', u1, u2, u3]"
  using assms by simp

lemma is_digit_not_newline: "is_digit c \<Longrightarrow> c \<noteq> CHR 0x0A"
  by (auto simp: is_digit_def)

lemma count_list_digits: "list_all is_digit s \<Longrightarrow> count_list s (CHR 0x0A) = 0"
  by (induction s) (auto dest: is_digit_not_newline)

lemma replace_newlines_length: "length (replace_newlines s) = length s"
  by (induction s) simp_all

lemma replace_newlines_nth:
  "i < length s \<Longrightarrow>
   replace_newlines s ! i = (if s ! i = CHR 0x0A \<or> s ! i = CHR 0x0D then CHR '' '' else s ! i)"
proof (induction s arbitrary: i)
  case Nil
  then show ?case by simp
next
  case (Cons c s)
  then show ?case by (cases i) simp_all
qed

lemma replace_newlines_count: "count_list (replace_newlines s) (CHR 0x0A) = 0"
  by (induction s) simp_all

text \<open>
  C9 (as the code has it). For a date and a clock in range, \<open>log\<close> writes the time
  stamp in the shape \<open>YYYY-MM-DD HH:MM:SS.mmm\<close>, then \<open> --- [\<close>, the thread name
  filled with spaces on the left up to 15 characters (a longer name is written in
  full), \<open>] : \<close>, the message and one line feed. The message is the rendered text, cut
  after 1023 characters, with every line feed and carriage return replaced by a space
  and every other character as it was. With no line feed in the thread name, the line
  feed at the end is the only one written.
\<close>

theorem log_line_format:
  assumes "tm_in_range t" and "tv_in_range tv"
  shows "\<exists>stamp text.
           log tv t rendered thread_name
             = stamp @ '' --- ['' @ replicate (15 - length thread_name) (CHR '' '') @ thread_name @
               ''] : '' @ text @ [CHR 0x0A] \<and>
           has_shape ''YYYY-MM-DD HH:MM:SS.mmm'' stamp \<and>
           length text = min (length rendered) 1023 \<and>
           (\<forall>i < length text. text ! i =
              (if rendered ! i = CHR 0x0A \<or> rendered ! i = CHR 0x0D then CHR '' ''
               else rendered ! i)) \<and>
           (CHR 0x0A \<notin> set thread_name \<longrightarrow>
              count_list (log tv t rendered thread_name) (CHR 0x0A) = 1)"
proof -
  let ?Y = "printf_0d 4 (tm_year t + 1900)" and ?M = "printf_0d 2 (tm_mon t + 1)"
  let ?D = "printf_0d 2 (tm_mday t)" and ?h = "printf_0d 2 (tm_hour t)"
  let ?m = "printf_0d 2 (tm_min t)" and ?s = "printf_0d 2 (tm_sec t)"
  let ?ms = "printf_0d 3 (tv_usec tv sdiv 1000)"
  let ?stamp = "?Y @ ''-'' @ ?M @ ''-'' @ ?D @ '' '' @ ?h @ '':'' @ ?m @ '':'' @ ?s @ ''.'' @ ?ms"
  let ?text = "replace_newlines (take (MAX_LOG_MESSAGE_LENGTH - 1) rendered)"
  have Y: "length ?Y = 4 \<and> list_all is_digit ?Y"
    using assms(1) by (intro printf_0d_digits) (simp_all add: tm_in_range_def)
  have M: "length ?M = 2 \<and> list_all is_digit ?M"
    using assms(1) by (intro printf_0d_digits) (simp_all add: tm_in_range_def)
  have D: "length ?D = 2 \<and> list_all is_digit ?D"
    using assms(1) by (intro printf_0d_digits) (simp_all add: tm_in_range_def)
  have h: "length ?h = 2 \<and> list_all is_digit ?h"
    using assms(1) by (intro printf_0d_digits) (simp_all add: tm_in_range_def)
  have m: "length ?m = 2 \<and> list_all is_digit ?m"
    using assms(1) by (intro printf_0d_digits) (simp_all add: tm_in_range_def)
  have s: "length ?s = 2 \<and> list_all is_digit ?s"
    using assms(1) by (intro printf_0d_digits) (simp_all add: tm_in_range_def)
  have "0 \<le> tv_usec tv sdiv 1000" "tv_usec tv sdiv 1000 < 1000"
    using assms(2) by (simp_all add: tv_in_range_def ms_range)
  then have ms: "length ?ms = 3 \<and> list_all is_digit ?ms"
    by (intro printf_0d_digits) simp_all
  have line: "log tv t rendered thread_name
      = ?stamp @ '' --- ['' @ replicate (15 - length thread_name) (CHR '' '') @ thread_name @
        ''] : '' @ ?text @ [CHR 0x0A]"
    by (simp add: log_def printf_15s_def)
  have shape: "has_shape ''YYYY-MM-DD HH:MM:SS.mmm'' ?stamp"
  proof -
    from four_digits [OF Y] obtain y1 y2 y3 y4 where
      Y': "?Y = [y1, y2, y3, y4]" "is_digit y1" "is_digit y2" "is_digit y3" "is_digit y4"
      by blast
    from two_digits [OF M] obtain m1 m2 where M': "?M = [m1, m2]" "is_digit m1" "is_digit m2"
      by blast
    from two_digits [OF D] obtain d1 d2 where D': "?D = [d1, d2]" "is_digit d1" "is_digit d2"
      by blast
    from two_digits [OF h] obtain h1 h2 where h': "?h = [h1, h2]" "is_digit h1" "is_digit h2"
      by blast
    from two_digits [OF m] obtain i1 i2 where m': "?m = [i1, i2]" "is_digit i1" "is_digit i2"
      by blast
    from two_digits [OF s] obtain s1 s2 where s': "?s = [s1, s2]" "is_digit s1" "is_digit s2"
      by blast
    from three_digits [OF ms] obtain u1 u2 u3 where
      ms': "?ms = [u1, u2, u3]" "is_digit u1" "is_digit u2" "is_digit u3"
      by blast
    have "?stamp = [y1, y2, y3, y4, CHR ''-'', m1, m2, CHR ''-'', d1, d2, CHR '' '', h1, h2,
        CHR '':'', i1, i2, CHR '':'', s1, s2, CHR ''.'', u1, u2, u3]"
      by (simp only: Y'(1) M'(1) D'(1) h'(1) m'(1) s'(1) ms'(1) append.simps)
    then show ?thesis
      using Y'(2-) M'(2-) D'(2-) h'(2-) m'(2-) s'(2-) ms'(2-) by (simp only: stamp_shape)
  qed
  have len: "length ?text = min (length rendered) 1023"
    by (simp add: replace_newlines_length MAX_LOG_MESSAGE_LENGTH_def)
  have nth: "\<forall>i < length ?text. ?text ! i =
      (if rendered ! i = CHR 0x0A \<or> rendered ! i = CHR 0x0D then CHR '' '' else rendered ! i)"
    by (simp add: replace_newlines_length replace_newlines_nth)
  have "count_list ?stamp (CHR 0x0A) = 0"
    using Y M D h m s ms by (simp add: count_list_digits)
  then have one: "CHR 0x0A \<notin> set thread_name \<longrightarrow>
      count_list (log tv t rendered thread_name) (CHR 0x0A) = 1"
    unfolding line by (simp add: replace_newlines_count count_list_0_iff)
  from line shape len nth one show ?thesis
    by blast
qed

lemma log_hi:
  "log tv_5ms tm_epoch ''hi'' ''main''
     = ''1970-01-01 00:00:00.005 --- [           main] : hi'' @ [CHR 0x0A]"
  by code_simp

text \<open>Witness: the line written for the message \<open>hi\<close> by the thread \<open>main\<close>.\<close>

theorem log_line_format_witness:
  "tm_in_range tm_epoch \<and> tv_in_range tv_5ms \<and>
   log tv_5ms tm_epoch ''hi'' ''main''
     = ''1970-01-01 00:00:00.005 --- [           main] : hi'' @ [CHR 0x0A] \<and>
   count_list (log tv_5ms tm_epoch ''hi'' ''main'') (CHR 0x0A) = 1"
proof -
  have r: "tm_in_range tm_epoch" "tv_in_range tv_5ms"
    by (simp_all add: tm_in_range_def tv_in_range_def tm_epoch_def tv_5ms_def)
  from log_line_format [OF r, of "''hi''" "''main''"]
  have "count_list (log tv_5ms tm_epoch ''hi'' ''main'') (CHR 0x0A) = 1"
    by auto
  with r log_hi show ?thesis
    by simp
qed

text \<open>
  The claim C9 as stated fails: a tab in the message is written as it is, and the
  17 characters of the collector's thread name are written in full.
\<close>

theorem log_keeps_tab:
  "log tv_5ms tm_epoch [CHR ''a'', CHR 0x09, CHR ''b''] ''garbage-collector''
     = ''1970-01-01 00:00:00.005 --- [garbage-collector] : a'' @ [CHR 0x09] @ ''b'' @ [CHR 0x0A]"
  by code_simp

section \<open>The age of a node\<close>

lemma sdiv_1000_close:
  "x - 999 \<le> (x sdiv 1000) * 1000 \<and> (x sdiv 1000) * 1000 \<le> x + 999" for x :: int
proof -
  have "x sdiv 1000 * 1000 + x smod 1000 = x"
    by (rule sdiv_mult_smod_eq)
  moreover have "x smod 1000 \<in> {- \<bar>1000\<bar> + 1..\<bar>1000\<bar> - 1}"
    by (rule smod_int_range) simp
  ultimately show ?thesis
    by auto
qed

lemma diff_close:
  "elapsed_us curr_time t - 999 \<le> diff curr_time t * 1000 \<and>
   diff curr_time t * 1000 \<le> elapsed_us curr_time t + 999"
  using sdiv_1000_close [of "tv_usec curr_time - tv_usec t"]
  by (simp add: diff_def elapsed_us_def algebra_simps)

lemma expired_when_old:
  assumes "x * 1000 \<le> elapsed_us curr_time t"
  shows "x \<le> diff curr_time t"
proof (rule ccontr)
  assume "\<not> x \<le> diff curr_time t"
  then have "diff curr_time t + 1 \<le> x"
    by simp
  then have "(diff curr_time t + 1) * 1000 \<le> x * 1000"
    by (rule mult_right_mono) simp
  then have "diff curr_time t * 1000 + 1000 \<le> x * 1000"
    by (simp add: algebra_simps)
  with assms diff_close [of curr_time t] show False
    by linarith
qed

lemma old_when_expired:
  assumes "x \<le> diff curr_time t"
  shows "(x - 1) * 1000 < elapsed_us curr_time t"
proof -
  from assms have "x * 1000 \<le> diff curr_time t * 1000"
    by (rule mult_right_mono) simp
  moreover have "(x - 1) * 1000 = x * 1000 - 1000"
    by (simp add: algebra_simps)
  ultimately show ?thesis
    using diff_close [of curr_time t] by linarith
qed

lemma cache_get_keeps_other_nodes:
  assumes "cache_get (Some c) req len now h = Some (Inr (r, h'))"
    and "nodes h a = Some nd" and "r \<noteq> Some (entry nd)"
  shows "nodes h' a = Some nd"
proof (cases r)
  case None
  with assms(1) have "h' = h"
    by (auto simp: cache_get_def split: sum.splits dest: get_loop_absent)
  with assms(2) show ?thesis by simp
next
  case (Some e)
  with assms(1) obtain cur where "found cur req len now h e h'"
    using cache_get_found by blast
  then obtain a' nd' where "nodes h a' = Some nd'" "entry nd' = e"
    "h' = h\<lparr>nodes := (nodes h)(a' \<mapsto> nd'\<lparr>last_modified_time := now\<rparr>)\<rparr>"
    unfolding found_def by blast
  with assms(2,3) Some show ?thesis
    by auto
qed

text \<open>
  C10 (as the code has it). The node that \<open>cache_add\<close> creates carries the clock read
  at its creation, and a lookup that does not return its entry leaves that time stamp
  alone. The expirer compares \<open>diff\<close>, the seconds apart times 1000 plus the
  microseconds apart divided by 1000 towards zero, with \<open>entry_expired_time_ms\<close>:
  the test holds at every tick that comes \<open>expiry_ms\<close> or more after the insertion,
  and at no tick that comes \<open>expiry_ms - 1\<close> ms or less after it. While the test
  fails the expirer passes the node by.
\<close>

theorem node_age_counts_from_insertion:
  assumes "cache_add (Some c) (Some e) al now h = Inr (SUCCESS, Some c', h')"
  shows "\<exists>a nd. al = Allocated a \<and> nodes h' a = Some nd \<and> entry nd = e \<and>
           last_modified_time nd = now \<and>
           (\<forall>req len t r h2.
              cache_get (Some c') req len t h' = Some (Inr (r, h2)) \<and> r \<noteq> Some e
                \<longrightarrow> nodes h2 a = Some nd) \<and>
           (entry_expired_time_ms c' * 1000 \<le> elapsed_us curr_time now
              \<longrightarrow> entry_expired_time_ms c' \<le> diff curr_time (last_modified_time nd)) \<and>
           (entry_expired_time_ms c' \<le> diff curr_time (last_modified_time nd)
              \<longrightarrow> (entry_expired_time_ms c' - 1) * 1000 < elapsed_us curr_time now) \<and>
           (\<not> entry_expired_time_ms c' \<le> diff curr_time (last_modified_time nd)
              \<longrightarrow> gc_chain (Some a) curr_time c' h' = gc_chain (next_node nd) curr_time c' h')"
proof -
  from assms obtain a where a: "al = Allocated a"
    by (cases al) (auto simp: cache_add_def cache_node_create_def SUCCESS_def ERROR_def)
  from assms a obtain old_head where
    h': "h' = log_msg ''Add new cache entry''
        (h\<lparr>nodes := (nodes h)(a \<mapsto> \<lparr>entry = e, last_modified_time = now, next_node = old_head\<rparr>)\<rparr>)"
    by (auto simp: cache_add_def cache_node_create_def split: option.splits sum.splits)
  obtain nd where nd: "nodes h' a = Some nd" "entry nd = e" "last_modified_time nd = now"
    by (simp add: h' log_msg_def)
  have keep: "\<forall>req len t r h2.
      cache_get (Some c') req len t h' = Some (Inr (r, h2)) \<and> r \<noteq> Some e
        \<longrightarrow> nodes h2 a = Some nd"
    using cache_get_keeps_other_nodes [OF _ nd(1)] nd(2) by auto
  have old: "entry_expired_time_ms c' * 1000 \<le> elapsed_us curr_time now
      \<longrightarrow> entry_expired_time_ms c' \<le> diff curr_time (last_modified_time nd)"
    unfolding nd(3) using expired_when_old by blast
  have young: "entry_expired_time_ms c' \<le> diff curr_time (last_modified_time nd)
      \<longrightarrow> (entry_expired_time_ms c' - 1) * 1000 < elapsed_us curr_time now"
    unfolding nd(3) using old_when_expired by blast
  have skip: "\<not> entry_expired_time_ms c' \<le> diff curr_time (last_modified_time nd)
      \<longrightarrow> gc_chain (Some a) curr_time c' h' = gc_chain (next_node nd) curr_time c' h'"
    using nd(1) by (subst gc_chain.simps) simp
  from a nd keep old young skip show ?thesis
    by blast
qed

lemma add_A_at_time_insert:
  "cache_add (Some cache_expiry1) (Some 10) (Allocated 1) time_insert heap_AB
     = Inr (SUCCESS, Some (cache_expiry1\<lparr>array := [Some 1]\<rparr>), heap_inserted)"
  by (simp add: op_eval state_eval cache_expiry1_def heap_inserted_def time_insert_def hash_A)

text \<open>
  Witness: "A" is inserted at 0.999999 s with an expiry of 1 ms. At a tick at 1.001 s,
  1001 microseconds later, the test holds.
\<close>

theorem node_age_counts_from_insertion_witness:
  "cache_add (Some cache_expiry1) (Some 10) (Allocated 1) time_insert heap_AB
     = Inr (SUCCESS, Some (cache_expiry1\<lparr>array := [Some 1]\<rparr>), heap_inserted) \<and>
   map_option last_modified_time (nodes heap_inserted 1) = Some time_insert \<and>
   elapsed_us \<lparr>tv_sec = 1, tv_usec = 1000\<rparr> time_insert = 1001 \<and>
   entry_expired_time_ms (cache_expiry1\<lparr>array := [Some 1]\<rparr>)
     \<le> diff \<lparr>tv_sec = 1, tv_usec = 1000\<rparr> time_insert"
  using node_age_counts_from_insertion
    [OF add_A_at_time_insert, of "\<lparr>tv_sec = 1, tv_usec = 1000\<rparr>"] add_A_at_time_insert
  by (auto simp: elapsed_us_def time_insert_def cache_expiry1_def cache_empty1_def)

text \<open>
  The claim C10 as stated fails: with an expiry of 1 ms, the node inserted at
  0.999999 s is removed by the tick at 1.000000 s, one microsecond after its insertion.
\<close>

theorem node_expires_after_one_microsecond:
  "cache_add (Some cache_expiry1) (Some 10) (Allocated 1) time_insert heap_AB
     = Inr (SUCCESS, Some (cache_expiry1\<lparr>array := [Some 1]\<rparr>), heap_inserted) \<and>
   entry_expired_time_ms cache_expiry1 = 1 \<and>
   elapsed_us time_tick time_insert = 1 \<and>
   diff time_tick time_insert = 1 \<and>
   garbage_collector_tick time_tick (cache_expiry1\<lparr>array := [Some 1]\<rparr>) heap_inserted
     = Some (Inr (cache_expiry1,
         heap_AB\<lparr>entries := (entries heap_AB)(10 := None),
           logged := [''Add new cache entry'', ''Cache entry destroy'']\<rparr>))"
proof -
  have age: "diff time_tick time_insert = 1" "elapsed_us time_tick time_insert = 1"
    by (simp_all add: diff_def elapsed_us_def time_tick_def time_insert_def signed_divide_int_def)
  have c: "entry_expired_time_ms (cache_expiry1\<lparr>array := [Some 1]\<rparr>) = 1"
    "entry_expired_time_ms cache_expiry1 = 1"
    "capacity (cache_expiry1\<lparr>array := [Some (Suc 0)]\<rparr>) = 1"
    "entry_expired_time_ms (cache_expiry1\<lparr>array := [Some (Suc 0)]\<rparr>) = 1"
    "capacity cache_expiry1 = 1"
    "array_read (cache_expiry1\<lparr>array := [Some (Suc 0)]\<rparr>) 0 = Inr (Some (Suc 0))"
    by (simp_all add: cache_expiry1_def cache_empty1_def array_read_def)
  have n: "nodes heap_inserted (Suc 0)
      = Some \<lparr>entry = 10, last_modified_time = time_insert, next_node = None\<rparr>"
    "entries heap_inserted 10 = Some entry_A"
    by (simp_all add: heap_inserted_def heap_AB_def)
  have d: "cache_delete (Some (cache_expiry1\<lparr>array := [Some (Suc 0)]\<rparr>)) (Some [65]) (Suc 0) heap_inserted
      = Some (Inr (SUCCESS, Some cache_expiry1,
         heap_AB\<lparr>entries := (entries heap_AB)(10 := None),
           logged := [''Add new cache entry'', ''Cache entry destroy'']\<rparr>))"
    by (simp add: op_eval state_eval cache_expiry1_def heap_inserted_def time_insert_def hash_A)
  have "gc_chain (Some 1) time_tick (cache_expiry1\<lparr>array := [Some 1]\<rparr>) heap_inserted
      = Some (Inr (cache_expiry1,
         heap_AB\<lparr>entries := (entries heap_AB)(10 := None),
           logged := [''Add new cache entry'', ''Cache entry destroy'']\<rparr>))"
    by (simp add: gc_chain.simps n age c d entry_A_def)
  then have "garbage_collector_tick time_tick (cache_expiry1\<lparr>array := [Some 1]\<rparr>) heap_inserted
      = Some (Inr (cache_expiry1,
         heap_AB\<lparr>entries := (entries heap_AB)(10 := None),
           logged := [''Add new cache entry'', ''Cache entry destroy'']\<rparr>))"
    by (simp add: garbage_collector_tick_def gc_for.simps c)
  with add_A_at_time_insert age c(2) show ?thesis
    by simp
qed

section \<open>The hash function on plain ASCII\<close>

text \<open>
  Where every byte of the fingerprint is below \<open>0x80\<close> and the capacity is at most
  69273662 (so that \<open>(capacity - 1) * 31 + 127\<close> fits an \<open>int\<close>), the function
  returns the value of the reference fold, which lies in \<open>[0, capacity)\<close>.
\<close>

lemma sint_ascii: "0 \<le> sint b \<Longrightarrow> sint b = uint b \<and> uint b \<le> 127" for b :: byte
proof -
  assume nonneg: "0 \<le> sint b"
  have "sint b \<le> 127"
    using sint_lt [of b] by simp
  moreover from this nonneg have "take_bit 8 (sint b) = sint b"
    by (intro take_bit_int_eq_self) simp_all
  then have "uint b = sint b"
    using uint_sint [of b] by simp
  ultimately show ?thesis by simp
qed

lemma hash_loop_ascii:
  assumes "\<forall>b \<in> set r. 0 \<le> sint b" and "0 < sz" and "sz \<le> 69273662"
  shows "0 \<le> hv \<Longrightarrow> hv < sz \<Longrightarrow> i \<le> length r \<Longrightarrow>
     hash_loop r (length r) sz i hv
       = Inr (fold (\<lambda>b h. (h * 31 + uint b) mod sz) (drop i r) hv)"
proof (induction "length r - i" arbitrary: i hv)
  case 0
  then show ?case
    by (subst hash_loop.simps) simp
next
  case (Suc k)
  then have i: "i < length r"
    by simp
  then have "r ! i \<in> set r"
    by simp
  with assms(1) have "0 \<le> sint (r ! i)"
    by blast
  then have byte: "sint (r ! i) = uint (r ! i)" "uint (r ! i) \<le> 127"
    using sint_ascii by blast+
  have "0 \<le> uint (r ! i)"
    by simp
  let ?v = "hv * 31 + uint (r ! i)"
  from Suc.prems(1,2) assms(3) have prod: "0 \<le> hv * 31" "hv * 31 \<le> 2147483491"
    by simp_all
  with byte(2) have v: "0 \<le> ?v" "?v \<le> INT_MAX"
    by (simp_all add: INT_MAX_def)
  from v(1) assms(2) have smod: "?v smod sz = ?v mod sz"
    by (simp add: smod_mod_positive)
  have next_hv: "0 \<le> ?v mod sz" "?v mod sz < sz"
    using assms(2) by simp_all
  have "hash_loop r (length r) sz (Suc i) (?v mod sz)
      = Inr (fold (\<lambda>b h. (h * 31 + uint b) mod sz) (drop (Suc i) r) (?v mod sz))"
    using Suc.hyps(2) i next_hv by (intro Suc.hyps(1)) simp_all
  moreover have "drop i r = r ! i # drop (Suc i) r"
    using i by (simp add: Cons_nth_drop_Suc)
  moreover have "\<not> (hv * 31 < INT_MIN \<or> INT_MAX < hv * 31)"
    "\<not> (?v < INT_MIN \<or> INT_MAX < ?v)"
  proof -
    have "INT_MIN < 0" "2147483491 < INT_MAX"
      by (simp_all add: INT_MIN_def INT_MAX_def)
    with prod show "\<not> (hv * 31 < INT_MIN \<or> INT_MAX < hv * 31)"
      by linarith
    from \<open>INT_MIN < 0\<close> v show "\<not> (?v < INT_MIN \<or> INT_MAX < ?v)"
      by linarith
  qed
  ultimately show ?case
    using i assms(2) byte(1) smod
    by (subst hash_loop.simps) (simp add: Let_def)
qed

lemma hash_spec_range: "0 < sz \<Longrightarrow> bytes \<noteq> [] \<Longrightarrow> 0 \<le> hash_spec bytes sz \<and> hash_spec bytes sz < sz"
proof (induction bytes rule: rev_induct)
  case Nil
  then show ?case by simp
next
  case (snoc b bytes)
  then show ?case by (simp add: hash_spec_def)
qed

lemma hash_ascii_matches_spec:
  assumes "\<forall>b \<in> set r. 0 \<le> sint b" and "0 < sz" and "sz \<le> 69273662"
  shows "hash (Some r) (length r) sz = Inr (hash_spec r sz) \<and>
         0 \<le> hash_spec r sz \<and> hash_spec r sz < sz"
proof -
  have "hash (Some r) (length r) sz = Inr (hash_spec r sz)"
    using hash_loop_ascii [OF assms, of 0 0] assms(2) by (simp add: hash_def hash_spec_def)
  moreover have "0 \<le> hash_spec r sz \<and> hash_spec r sz < sz"
  proof (cases "r = []")
    case True
    with assms(2) show ?thesis by (simp add: hash_spec_def)
  next
    case False
    with assms(2) show ?thesis by (rule hash_spec_range)
  qed
  ultimately show ?thesis by simp
qed

end
